theory Spec2Isabelle
  imports Main "HOL-Library.Word" "HOL-Library.Multiset"
begin

section \<open>The accounting LRU cache of simplelru/lru_accounting.go\<close>

text \<open>
  The cache is the Go struct \<^verbatim>\<open>LRUWithAccounting\<close>: a weight limit, the accounted
  size, a recency list (\<^verbatim>\<open>container/list\<close>, front = most recently used), a key index
  from keys to list elements, the eviction callback and the accounting callback.

  Go's \<^verbatim>\<open>int\<close> is taken as a 64-bit two's complement integer: \<open>+\<close> and \<open>-\<close> wrap,
  comparisons are the signed ones (\<open><s\<close>, \<open>\<le>s\<close>).

  List elements are heap objects, shared between the recency list and the key index. An
  element is modelled by its address (a natural number); the store \<open>heap\<close> maps the address
  of an element to the entry its \<^verbatim>\<open>Value\<close> points to, \<open>None\<close> standing for a nil entry
  pointer. Elements are never freed (Go is garbage collected), and \<open>fresh\<close> is the next unused
  address.

  The eviction callback is an effect on the caller's side. The model records whether the
  callback is set (\<open>onEvict\<close>) and appends every invocation, with its arguments, to
  \<open>evictCalls\<close>.
\<close>

type_synonym go_int = "64 word"

datatype error =
  MustProvidePositiveSize
  | NilPointerDereference
  | IndexOutOfRange

text \<open>
  Modelled from the spec: the declarations of \<^verbatim>\<open>entry\<close> and \<^verbatim>\<open>EvictCallback\<close> are
  not in the source file (they belong to the sibling file of the package). The spec's data model
  has an entry as a (key, value) pair whose value is mutable in place, and the callback as
  receiving the evicted key and value.
\<close>

record ('k, 'v) entry =
  key :: 'k
  val :: 'v

record ('k, 'v) LRUWithAccounting =
  limit :: go_int
  size_acc :: go_int
  evictList :: "nat list"
  items :: "'k \<rightharpoonup> nat"
  onEvict :: bool
  onAccount :: "'k \<Rightarrow> 'v \<Rightarrow> go_int"
  heap :: "nat \<rightharpoonup> ('k, 'v) entry"
  fresh :: nat
  evictCalls :: "('k \<times> 'v) list"

subsection \<open>The operations of container/list that the cache uses\<close>

text \<open>
  \<^verbatim>\<open>PushFront\<close> links a new element at the front; \<^verbatim>\<open>MoveToFront\<close> and \<^verbatim>\<open>Remove\<close> do
  nothing for an element that is not in the list; \<^verbatim>\<open>Back\<close> is nil on the empty list.
\<close>

definition PushFront :: "nat \<Rightarrow> nat list \<Rightarrow> nat list" where
  "PushFront e l = e # l"

definition MoveToFront :: "nat \<Rightarrow> nat list \<Rightarrow> nat list" where
  "MoveToFront e l = (if e \<in> set l then e # remove1 e l else l)"

definition list_Remove :: "nat \<Rightarrow> nat list \<Rightarrow> nat list" where
  "list_Remove e l = (if e \<in> set l then remove1 e l else l)"

definition Back :: "nat list \<Rightarrow> nat option" where
  "Back l = (if l = [] then None else Some (last l))"

subsection \<open>Construction and observers\<close>

definition NewLRUWithAccounting ::
  "go_int \<Rightarrow> ('k \<Rightarrow> 'v \<Rightarrow> go_int) \<Rightarrow> bool \<Rightarrow> error + ('k, 'v) LRUWithAccounting" where
  "NewLRUWithAccounting lim account evict =
     (if lim \<le>s 0 then Inl MustProvidePositiveSize
      else Inr \<lparr>limit = lim, size_acc = 0, evictList = [], items = Map.empty,
                onEvict = evict, onAccount = account, heap = Map.empty, fresh = 0,
                evictCalls = []\<rparr>)"

definition Len :: "('k, 'v) LRUWithAccounting \<Rightarrow> go_int" where
  "Len c = word_of_nat (length (evictList c))"

definition AccountingSize :: "('k, 'v) LRUWithAccounting \<Rightarrow> go_int" where
  "AccountingSize c = size_acc c"

subsection \<open>Removal\<close>

text \<open>
  \<^verbatim>\<open>removeElement\<close>: unlink the element, delete its key from the index, call the callback
  if there is one, subtract the entry's weight.
\<close>

definition removeElement ::
  "nat \<Rightarrow> ('k, 'v) LRUWithAccounting \<Rightarrow> error + ('k, 'v) LRUWithAccounting" where
  "removeElement e c =
     (let c1 = c\<lparr>evictList := list_Remove e (evictList c)\<rparr>
      in case heap c1 e of
           None \<Rightarrow> Inl NilPointerDereference
         | Some kv \<Rightarrow>
             let c2 = c1\<lparr>items := (items c1)(key kv := None)\<rparr>;
                 c3 = (if onEvict c2
                       then c2\<lparr>evictCalls := evictCalls c2 @ [(key kv, val kv)]\<rparr>
                       else c2)
             in Inr (c3\<lparr>size_acc := size_acc c3 - onAccount c3 (key kv) (val kv)\<rparr>))"

definition removeOldest ::
  "('k, 'v) LRUWithAccounting \<Rightarrow> error + ('k, 'v) LRUWithAccounting" where
  "removeOldest c =
     (case Back (evictList c) of
        Some ent \<Rightarrow> removeElement ent c
      | None \<Rightarrow> Inr c)"

definition Remove ::
  "'k \<Rightarrow> ('k, 'v) LRUWithAccounting \<Rightarrow> error + (bool \<times> ('k, 'v) LRUWithAccounting)" where
  "Remove k c =
     (case items c k of
        Some ent \<Rightarrow>
          (case removeElement ent c of
             Inl err \<Rightarrow> Inl err
           | Inr c' \<Rightarrow> Inr (True, c'))
      | None \<Rightarrow> Inr (False, c))"

definition RemoveOldest ::
  "('k, 'v) LRUWithAccounting \<Rightarrow> error + (('k \<times> 'v) option \<times> ('k, 'v) LRUWithAccounting)" where
  "RemoveOldest c =
     (case Back (evictList c) of
        Some ent \<Rightarrow>
          (case removeElement ent c of
             Inl err \<Rightarrow> Inl err
           | Inr c' \<Rightarrow>
               (case heap c' ent of
                  None \<Rightarrow> Inl NilPointerDereference
                | Some kv \<Rightarrow> Inr (Some (key kv, val kv), c')))
      | None \<Rightarrow> Inr (None, c))"

definition GetOldest ::
  "('k, 'v) LRUWithAccounting \<Rightarrow> error + ('k \<times> 'v) option" where
  "GetOldest c =
     (case Back (evictList c) of
        Some ent \<Rightarrow>
          (case heap c ent of
             None \<Rightarrow> Inl NilPointerDereference
           | Some kv \<Rightarrow> Inr (Some (key kv, val kv)))
      | None \<Rightarrow> Inr None)"

subsection \<open>The eviction loop and Add\<close>

text \<open>
  \<^verbatim>\<open>for c.size > c.limit { c.removeOldest() }\<close>. Nothing in the loop looks at the list: on
  an empty list \<^verbatim>\<open>removeOldest\<close> returns at once and the loop goes on while the condition
  holds. The loop is therefore a partial function: \<open>None\<close> is a run that never returns,
  \<open>Some (Inl err)\<close> a panic, \<open>Some (Inr c')\<close> a normal exit in state \<open>c'\<close>.
\<close>

partial_function (option) evictLoop ::
  "('k, 'v) LRUWithAccounting \<Rightarrow> (error + ('k, 'v) LRUWithAccounting) option" where
  "evictLoop c =
     (if limit c <s size_acc c
      then (case removeOldest c of
              Inl err \<Rightarrow> Some (Inl err)
            | Inr c' \<Rightarrow> evictLoop c')
      else Some (Inr c))"

definition evictIfNeeded ::
  "('k, 'v) LRUWithAccounting \<Rightarrow> (error + (bool \<times> ('k, 'v) LRUWithAccounting)) option" where
  "evictIfNeeded c =
     (let evict = limit c <s size_acc c
      in case evictLoop c of
           None \<Rightarrow> None
         | Some (Inl err) \<Rightarrow> Some (Inl err)
         | Some (Inr c') \<Rightarrow> Some (Inr (evict, c')))"

text \<open>
  The part of \<^verbatim>\<open>Add\<close> before \<^verbatim>\<open>return c.evictIfNeeded()\<close>: the update of an existing
  entry (first branch) or the insertion of a new one.
\<close>

definition Add_place ::
  "'k \<Rightarrow> 'v \<Rightarrow> ('k, 'v) LRUWithAccounting \<Rightarrow> error + ('k, 'v) LRUWithAccounting" where
  "Add_place k v c =
     (case items c k of
        Some ent \<Rightarrow>
          (let c1 = c\<lparr>evictList := MoveToFront ent (evictList c)\<rparr>
           in case heap c1 ent of
                None \<Rightarrow> Inl NilPointerDereference
              | Some kv \<Rightarrow>
                  let c2 = c1\<lparr>size_acc := size_acc c1 - onAccount c1 (key kv) (val kv)\<rparr>;
                      kv' = kv\<lparr>val := v\<rparr>;
                      c3 = c2\<lparr>heap := (heap c2)(ent \<mapsto> kv')\<rparr>
                  in Inr (c3\<lparr>size_acc := size_acc c3 + onAccount c3 (key kv') (val kv')\<rparr>))
      | None \<Rightarrow>
          (let ent = fresh c;
               c1 = c\<lparr>heap := (heap c)(ent \<mapsto> \<lparr>key = k, val = v\<rparr>), fresh := Suc ent\<rparr>;
               c2 = c1\<lparr>evictList := PushFront ent (evictList c1)\<rparr>;
               c3 = c2\<lparr>items := (items c2)(k \<mapsto> ent)\<rparr>
           in Inr (c3\<lparr>size_acc := size_acc c3 + onAccount c3 k v\<rparr>)))"

definition Add ::
  "'k \<Rightarrow> 'v \<Rightarrow> ('k, 'v) LRUWithAccounting
     \<Rightarrow> (error + (bool \<times> ('k, 'v) LRUWithAccounting)) option" where
  "Add k v c =
     (case Add_place k v c of
        Inl err \<Rightarrow> Some (Inl err)
      | Inr c' \<Rightarrow> evictIfNeeded c')"

subsection \<open>Lookups\<close>

text \<open>
  \<^verbatim>\<open>Get\<close> moves the element to the front and then checks the entry pointer for nil;
  \<^verbatim>\<open>Peek\<close> dereferences it without a check. The result \<open>Some v\<close> is Go's \<^verbatim>\<open>(v, true)\<close>,
  \<open>None\<close> is \<^verbatim>\<open>(nil, false)\<close>. All three are methods on the cache pointer, so they
  return the state they leave behind.
\<close>

definition Get ::
  "'k \<Rightarrow> ('k, 'v) LRUWithAccounting \<Rightarrow> 'v option \<times> ('k, 'v) LRUWithAccounting" where
  "Get k c =
     (case items c k of
        Some ent \<Rightarrow>
          (let c1 = c\<lparr>evictList := MoveToFront ent (evictList c)\<rparr>
           in case heap c1 ent of
                None \<Rightarrow> (None, c1)
              | Some kv \<Rightarrow> (Some (val kv), c1))
      | None \<Rightarrow> (None, c))"

definition Contains ::
  "'k \<Rightarrow> ('k, 'v) LRUWithAccounting \<Rightarrow> bool \<times> ('k, 'v) LRUWithAccounting" where
  "Contains k c = (items c k \<noteq> None, c)"

definition Peek ::
  "'k \<Rightarrow> ('k, 'v) LRUWithAccounting \<Rightarrow> error + ('v option \<times> ('k, 'v) LRUWithAccounting)" where
  "Peek k c =
     (case items c k of
        Some ent \<Rightarrow>
          (case heap c ent of
             None \<Rightarrow> Inl NilPointerDereference
           | Some kv \<Rightarrow> Inr (Some (val kv), c))
      | None \<Rightarrow> Inr (None, c))"

text \<open>
  \<^verbatim>\<open>Keys\<close> allocates \<^verbatim>\<open>len(c.items)\<close> slots and fills them walking the list from the
  back: a list longer than the index runs out of the slice, a shorter one leaves nil slots
  (\<open>None\<close>).
\<close>

fun Keys_walk :: "(nat \<rightharpoonup> ('k, 'v) entry) \<Rightarrow> nat list \<Rightarrow> error + 'k list" where
  "Keys_walk h [] = Inr []"
| "Keys_walk h (e # es) =
     (case h e of
        None \<Rightarrow> Inl NilPointerDereference
      | Some kv \<Rightarrow>
          (case Keys_walk h es of
             Inl err \<Rightarrow> Inl err
           | Inr ks \<Rightarrow> Inr (key kv # ks)))"

definition Keys :: "('k, 'v) LRUWithAccounting \<Rightarrow> error + 'k option list" where
  "Keys c =
     (let n = card (dom (items c))
      in if n < length (evictList c)
         then (case Keys_walk (heap c) (take (Suc n) (rev (evictList c))) of
                 Inl err \<Rightarrow> Inl err
               | Inr ks \<Rightarrow> Inl IndexOutOfRange)
         else (case Keys_walk (heap c) (rev (evictList c)) of
                 Inl err \<Rightarrow> Inl err
               | Inr ks \<Rightarrow> Inr (map Some ks @ replicate (n - length ks) None)))"

subsection \<open>Resize and Purge\<close>

text \<open>
  \<^verbatim>\<open>Resize\<close> compares the number of entries with its argument, calls \<^verbatim>\<open>removeOldest\<close>
  that many times, and then stores the argument as the new weight limit. The counting loop
  \<^verbatim>\<open>for i := 0; i < diff; i++\<close> runs \<open>diff\<close> times, read as a signed number (none when
  it is not positive).
\<close>

fun Resize_loop ::
  "nat \<Rightarrow> ('k, 'v) LRUWithAccounting \<Rightarrow> error + ('k, 'v) LRUWithAccounting" where
  "Resize_loop 0 c = Inr c"
| "Resize_loop (Suc n) c =
     (case removeOldest c of
        Inl err \<Rightarrow> Inl err
      | Inr c' \<Rightarrow> Resize_loop n c')"

definition Resize ::
  "go_int \<Rightarrow> ('k, 'v) LRUWithAccounting \<Rightarrow> error + (go_int \<times> ('k, 'v) LRUWithAccounting)" where
  "Resize sz c =
     (let diff0 = Len c - sz;
          diff = (if diff0 <s 0 then 0 else diff0)
      in case Resize_loop (nat (sint diff)) c of
           Inl err \<Rightarrow> Inl err
         | Inr c' \<Rightarrow> Inr (diff, c'\<lparr>limit := sz\<rparr>))"

text \<open>
  \<^verbatim>\<open>Purge\<close> ranges over the index. Go leaves the order of a map range open, so the order
  is a parameter: the list \<open>ks\<close> of the keys in the order the range yields them. A key
  that is no longer in the map when its turn comes is not visited.
\<close>

definition Purge_step ::
  "'k \<Rightarrow> ('k, 'v) LRUWithAccounting \<Rightarrow> error + ('k, 'v) LRUWithAccounting" where
  "Purge_step k c =
     (case items c k of
        None \<Rightarrow> Inr c
      | Some ent \<Rightarrow>
          if onEvict c
          then (case heap c ent of
                  None \<Rightarrow> Inl NilPointerDereference
                | Some kv \<Rightarrow>
                    Inr (c\<lparr>evictCalls := evictCalls c @ [(k, val kv)],
                           items := (items c)(k := None)\<rparr>))
          else Inr (c\<lparr>items := (items c)(k := None)\<rparr>))"

fun Purge_range ::
  "'k list \<Rightarrow> ('k, 'v) LRUWithAccounting \<Rightarrow> error + ('k, 'v) LRUWithAccounting" where
  "Purge_range [] c = Inr c"
| "Purge_range (k # ks) c =
     (case Purge_step k c of
        Inl err \<Rightarrow> Inl err
      | Inr c' \<Rightarrow> Purge_range ks c')"

definition Purge ::
  "'k list \<Rightarrow> ('k, 'v) LRUWithAccounting \<Rightarrow> error + ('k, 'v) LRUWithAccounting" where
  "Purge ks c =
     (case Purge_range ks c of
        Inl err \<Rightarrow> Inl err
      | Inr c' \<Rightarrow> Inr (c'\<lparr>evictList := [], size_acc := 0\<rparr>))"

subsection \<open>What the cache holds, and its invariant\<close>

text \<open>
  The entries of the cache are the (key, value) pairs of the elements of the recency list,
  front first; the total weight is the sum of the accounting function over them.
\<close>

definition entry_at :: "(nat \<rightharpoonup> ('k, 'v) entry) \<Rightarrow> nat \<Rightarrow> ('k \<times> 'v) list" where
  "entry_at h e = (case h e of None \<Rightarrow> [] | Some kv \<Rightarrow> [(key kv, val kv)])"

definition entries_of :: "(nat \<rightharpoonup> ('k, 'v) entry) \<Rightarrow> nat list \<Rightarrow> ('k \<times> 'v) list" where
  "entries_of h l = concat (map (entry_at h) l)"

definition entries :: "('k, 'v) LRUWithAccounting \<Rightarrow> ('k \<times> 'v) list" where
  "entries c = entries_of (heap c) (evictList c)"

definition weights :: "('k, 'v) LRUWithAccounting \<Rightarrow> go_int list" where
  "weights c = map (\<lambda>(k, v). onAccount c k v) (entries c)"

definition total_weight :: "('k, 'v) LRUWithAccounting \<Rightarrow> go_int" where
  "total_weight c = sum_list (weights c)"

text \<open>
  The invariant of the data model: an element is linked once; every linked element has been
  allocated, holds an entry, and is what the index has for the entry's key; the index has
  nothing but linked elements, each under the key of its entry; and the size field is the
  total weight (in 64-bit arithmetic).
\<close>

definition lru_inv :: "('k, 'v) LRUWithAccounting \<Rightarrow> bool" where
  "lru_inv c \<longleftrightarrow>
     distinct (evictList c)
     \<and> (\<forall>e \<in> set (evictList c).
           e < fresh c \<and> (\<exists>kv. heap c e = Some kv \<and> items c (key kv) = Some e))
     \<and> (\<forall>k e. items c k = Some e \<longrightarrow>
           e \<in> set (evictList c) \<and> (\<exists>kv. heap c e = Some kv \<and> key kv = k))
     \<and> size_acc c = total_weight c"

subsection \<open>The eviction loop in the words of the specification\<close>

text \<open>
  The specification: while the total weight is above the limit, the least-recently-used
  entry is removed (its weight subtracted, the callback fired, its key removed from the
  index), until the weight is within the limit or no entries remain.
\<close>

definition spec_drop_lru :: "('k, 'v) LRUWithAccounting \<Rightarrow> ('k, 'v) LRUWithAccounting" where
  "spec_drop_lru c =
     (case heap c (last (evictList c)) of
        None \<Rightarrow> c\<lparr>evictList := butlast (evictList c)\<rparr>
      | Some kv \<Rightarrow>
          c\<lparr>evictList := butlast (evictList c),
            items := (items c)(key kv := None),
            evictCalls := (if onEvict c then evictCalls c @ [(key kv, val kv)]
                           else evictCalls c),
            size_acc := size_acc c - onAccount c (key kv) (val kv)\<rparr>)"

function spec_evict :: "('k, 'v) LRUWithAccounting \<Rightarrow> ('k, 'v) LRUWithAccounting" where
  "spec_evict c =
     (if limit c <s size_acc c \<and> evictList c \<noteq> []
      then spec_evict (spec_drop_lru c)
      else c)"
  by pat_completeness auto
termination
  by (relation "measure (\<lambda>c. length (evictList c))")
     (auto simp: spec_drop_lru_def split: option.splits)

subsection \<open>The states the operations lead to\<close>

text \<open>
  The state after \<^verbatim>\<open>removeElement\<close> has unlinked element \<open>e\<close>, whose entry is \<open>kv\<close>.
\<close>

definition unlinked ::
  "nat \<Rightarrow> ('k, 'v) entry \<Rightarrow> ('k, 'v) LRUWithAccounting \<Rightarrow> ('k, 'v) LRUWithAccounting" where
  "unlinked e kv c =
     c\<lparr>evictList := remove1 e (evictList c),
       items := (items c)(key kv := None),
       evictCalls := (if onEvict c then evictCalls c @ [(key kv, val kv)] else evictCalls c),
       size_acc := size_acc c - onAccount c (key kv) (val kv)\<rparr>"

text \<open>
  The state after the insert step of \<^verbatim>\<open>Add\<close> for a new key, and after its update step for
  the element \<open>e\<close> of a present key, whose entry was \<open>kv\<close>.
\<close>

definition placed_new ::
  "'k \<Rightarrow> 'v \<Rightarrow> ('k, 'v) LRUWithAccounting \<Rightarrow> ('k, 'v) LRUWithAccounting" where
  "placed_new k v c =
     c\<lparr>heap := (heap c)(fresh c \<mapsto> \<lparr>key = k, val = v\<rparr>), fresh := Suc (fresh c),
       evictList := fresh c # evictList c, items := (items c)(k \<mapsto> fresh c),
       size_acc := size_acc c + onAccount c k v\<rparr>"

definition placed_upd ::
  "nat \<Rightarrow> ('k, 'v) entry \<Rightarrow> 'v \<Rightarrow> ('k, 'v) LRUWithAccounting \<Rightarrow> ('k, 'v) LRUWithAccounting" where
  "placed_upd e kv v c =
     c\<lparr>evictList := e # remove1 e (evictList c),
       heap := (heap c)(e \<mapsto> kv\<lparr>val := v\<rparr>),
       size_acc := size_acc c - onAccount c (key kv) (val kv) + onAccount c (key kv) v\<rparr>"

text \<open>The state after \<^verbatim>\<open>MoveToFront\<close> of element \<open>e\<close>.\<close>

definition promoted :: "nat \<Rightarrow> ('k, 'v) LRUWithAccounting \<Rightarrow> ('k, 'v) LRUWithAccounting" where
  "promoted e c = c\<lparr>evictList := e # remove1 e (evictList c)\<rparr>"

text \<open>The call of the callback when \<^verbatim>\<open>Purge\<close> visits key \<open>k\<close>.\<close>

definition purge_call :: "('k, 'v) LRUWithAccounting \<Rightarrow> 'k \<Rightarrow> ('k \<times> 'v) list" where
  "purge_call c k =
     (case items c k of
        None \<Rightarrow> []
      | Some e \<Rightarrow> (case heap c e of None \<Rightarrow> [] | Some kv \<Rightarrow> [(k, val kv)]))"

subsection \<open>Predicates used in the claims\<close>

text \<open>
  The callback was called correctly between two states: the entries before are the entries after
  together with the arguments of the calls; every call is for a different key, and no call is
  for a key that is still present.
\<close>

definition evicted_once ::
  "('k \<times> 'v) list \<Rightarrow> ('k \<times> 'v) list \<Rightarrow> ('k \<times> 'v) list \<Rightarrow> bool" where
  "evicted_once before after calls \<longleftrightarrow>
     mset before = mset after + mset calls
     \<and> distinct (map fst calls)
     \<and> fst ` set calls \<inter> fst ` set after = {}"

text \<open>
  The weights of the present entries are not negative and their sum fits Go's \<^verbatim>\<open>int\<close>
  (so the 64-bit sum is the true sum).
\<close>

definition weights_exact :: "('k, 'v) LRUWithAccounting \<Rightarrow> bool" where
  "weights_exact c \<longleftrightarrow>
     (\<forall>w \<in> set (weights c). 0 \<le>s w) \<and> sum_list (map sint (weights c)) < 2 ^ 63"

subsection \<open>A small cache used as the running example\<close>

text \<open>
  Keys and values are natural numbers and an entry weighs as much as its value says. The
  cache holds key 1 (value 4, the older entry) and key 2 (value 5), with limit 10.
\<close>

definition ex_account :: "nat \<Rightarrow> nat \<Rightarrow> go_int" where
  "ex_account k v = word_of_nat v"

definition ex_cache :: "(nat, nat) LRUWithAccounting" where
  "ex_cache =
     \<lparr>limit = 10, size_acc = 9, evictList = [1, 0],
      items = [1 \<mapsto> 0, 2 \<mapsto> 1],
      onEvict = True, onAccount = ex_account,
      heap = [0 \<mapsto> \<lparr>key = 1, val = 4\<rparr>, 1 \<mapsto> \<lparr>key = 2, val = 5\<rparr>],
      fresh = 2, evictCalls = []\<rparr>"

text \<open>The cache right after \<^verbatim>\<open>NewLRUWithAccounting(10, ...)\<close>.\<close>

definition ex_empty :: "(nat, nat) LRUWithAccounting" where
  "ex_empty =
     \<lparr>limit = 10, size_acc = 0, evictList = [], items = Map.empty,
      onEvict = True, onAccount = ex_account, heap = Map.empty,
      fresh = 0, evictCalls = []\<rparr>"

text \<open>The empty cache after a resize to a negative limit.\<close>

definition ex_negative :: "(nat, nat) LRUWithAccounting" where
  "ex_negative =
     \<lparr>limit = - 1, size_acc = 0, evictList = [], items = Map.empty,
      onEvict = True, onAccount = ex_account, heap = Map.empty,
      fresh = 0, evictCalls = []\<rparr>"

text \<open>
  An accounting function with negative weights (an entry weighs minus its value), and an empty
  cache with limit -1 using it: the size stays below the limit when an entry is added.
\<close>

definition ex_credit :: "nat \<Rightarrow> nat \<Rightarrow> go_int" where
  "ex_credit k v = - word_of_nat v"

definition ex_overdrawn :: "(nat, nat) LRUWithAccounting" where
  "ex_overdrawn =
     \<lparr>limit = - 1, size_acc = 0, evictList = [], items = Map.empty,
      onEvict = True, onAccount = ex_credit, heap = Map.empty,
      fresh = 0, evictCalls = []\<rparr>"

subsection \<open>The tests of the repository\<close>

text \<open>
  The accounting function of the tests is \<^verbatim>\<open>len(k) + len(v)\<close> on strings; the tests add the
  keys "0" to "9", each with its own name as value, and then update them with the values "100"
  to "109". \<open>Add_all\<close> is a loop of \<^verbatim>\<open>Add\<close> calls that ignores the flag returned, and
  \<open>test_cache\<close> is what the constructor returns.
\<close>

definition test_account :: "string \<Rightarrow> string \<Rightarrow> go_int" where
  "test_account k v = word_of_nat (length k + length v)"

fun Add_all ::
  "('k \<times> 'v) list \<Rightarrow> ('k, 'v) LRUWithAccounting \<Rightarrow> ('k, 'v) LRUWithAccounting option" where
  "Add_all [] c = Some c"
| "Add_all ((k, v) # kvs) c =
     (case Add k v c of
        Some (Inr (evicted, c')) \<Rightarrow> Add_all kvs c'
      | _ \<Rightarrow> None)"

definition test_cache :: "go_int \<Rightarrow> (string, string) LRUWithAccounting" where
  "test_cache lim =
     \<lparr>limit = lim, size_acc = 0, evictList = [], items = Map.empty,
      onEvict = True, onAccount = test_account, heap = Map.empty,
      fresh = 0, evictCalls = []\<rparr>"

definition test_adds :: "(string \<times> string) list" where
  "test_adds = [(''0'', ''0''), (''1'', ''1''), (''2'', ''2''), (''3'', ''3''), (''4'', ''4''),
               (''5'', ''5''), (''6'', ''6''), (''7'', ''7''), (''8'', ''8''), (''9'', ''9'')]"

definition test_updates :: "(string \<times> string) list" where
  "test_updates = [(''0'', ''100''), (''1'', ''101''), (''2'', ''102''), (''3'', ''103''),
               (''4'', ''104''), (''5'', ''105''), (''6'', ''106''), (''7'', ''107''),
               (''8'', ''108''), (''9'', ''109'')]"

section \<open>Lemmas about the model\<close>

subsection \<open>Entries and list surgery\<close>

declare spec_evict.simps [simp del]

lemma entries_of_Nil [simp]: "entries_of h [] = []"
  by (simp add: entries_of_def)

lemma entries_of_Cons: "entries_of h (e # l) = entry_at h e @ entries_of h l"
  by (simp add: entries_of_def)

lemma entries_of_append: "entries_of h (xs @ ys) = entries_of h xs @ entries_of h ys"
  by (simp add: entries_of_def)

lemma entry_at_Some: "h e = Some kv \<Longrightarrow> entry_at h e = [(key kv, val kv)]"
  by (simp add: entry_at_def)

lemma entries_of_cong: "(\<And>e. e \<in> set l \<Longrightarrow> h e = h' e) \<Longrightarrow> entries_of h l = entries_of h' l"
  by (induction l) (simp_all add: entries_of_Cons entry_at_def)

lemma remove1_split: "e \<notin> set xs \<Longrightarrow> remove1 e (xs @ e # ys) = xs @ ys"
  by (induction xs) auto

lemma remove1_last_distinct: "l \<noteq> [] \<Longrightarrow> distinct l \<Longrightarrow> remove1 (last l) l = butlast l"
proof -
  assume ne: "l \<noteq> []" and d: "distinct l"
  then have l: "l = butlast l @ [last l]" by simp
  have "last l \<notin> set (butlast l)" using d ne
    by (metis distinct_butlast not_distinct_conv_prefix l append_butlast_last_id distinct_append disjoint_iff list.set_intros(1))
  then have "remove1 (last l) (butlast l @ [last l]) = butlast l @ []"
    using remove1_split [of "last l" "butlast l" "[]"] by simp
  with l show ?thesis by simp
qed

subsection \<open>Removing an element\<close>

lemma removeElement_unlinked:
  "heap c e = Some kv \<Longrightarrow> removeElement e c = Inr (unlinked e kv c)"
  by (simp add: removeElement_def unlinked_def list_Remove_def Let_def remove1_idem)

lemma inv_heap:
  "lru_inv c \<Longrightarrow> e \<in> set (evictList c) \<Longrightarrow> \<exists>kv. heap c e = Some kv \<and> items c (key kv) = Some e"
  by (simp add: lru_inv_def)

lemma inv_items:
  "lru_inv c \<Longrightarrow> items c k = Some e \<Longrightarrow>
   e \<in> set (evictList c) \<and> (\<exists>kv. heap c e = Some kv \<and> key kv = k)"
  by (simp add: lru_inv_def)

lemma entries_unlinked:
  assumes "distinct (evictList c)" "evictList c = xs @ e # ys" "heap c e = Some kv"
  shows "entries c = entries_of (heap c) xs @ (key kv, val kv) # entries_of (heap c) ys"
    and "entries (unlinked e kv c) = entries_of (heap c) xs @ entries_of (heap c) ys"
  using assms
  by (simp_all add: entries_def unlinked_def entries_of_append entries_of_Cons entry_at_Some remove1_split)

lemma total_weight_unlinked:
  assumes "distinct (evictList c)" "e \<in> set (evictList c)" "heap c e = Some kv"
  shows "total_weight (unlinked e kv c) = total_weight c - onAccount c (key kv) (val kv)"
proof -
  from assms(2) obtain xs ys where l: "evictList c = xs @ e # ys"
    by (meson split_list)
  have oa: "onAccount (unlinked e kv c) = onAccount c" by (simp add: unlinked_def)
  show ?thesis
    using entries_unlinked [OF assms(1) l assms(3)]
    by (simp add: total_weight_def weights_def oa)
qed

lemma lru_inv_unlinked:
  assumes inv: "lru_inv c" and e: "e \<in> set (evictList c)" and h: "heap c e = Some kv"
  shows "lru_inv (unlinked e kv c)"
proof -
  have d: "distinct (evictList c)" using inv by (simp add: lru_inv_def)
  have ik: "items c (key kv) = Some e" using inv_heap [OF inv e] h by auto
  have tw: "size_acc (unlinked e kv c) = total_weight (unlinked e kv c)"
    using total_weight_unlinked [OF d e h] inv by (simp add: lru_inv_def unlinked_def)
  have a: "\<forall>e' \<in> set (evictList (unlinked e kv c)). e' < fresh (unlinked e kv c) \<and>
             (\<exists>kv'. heap (unlinked e kv c) e' = Some kv' \<and> items (unlinked e kv c) (key kv') = Some e')"
  proof
    fix e' assume "e' \<in> set (evictList (unlinked e kv c))"
    then have e': "e' \<in> set (evictList c)" "e' \<noteq> e" using d by (auto simp: unlinked_def)
    from inv e'(1) obtain kv' where kv': "e' < fresh c" "heap c e' = Some kv'" "items c (key kv') = Some e'"
      by (auto simp: lru_inv_def)
    have "key kv' \<noteq> key kv" using kv'(3) ik e'(2) by auto
    then show "e' < fresh (unlinked e kv c) \<and>
             (\<exists>kv'. heap (unlinked e kv c) e' = Some kv' \<and> items (unlinked e kv c) (key kv') = Some e')"
      using kv' by (simp add: unlinked_def)
  qed
  have b: "\<forall>k e'. items (unlinked e kv c) k = Some e' \<longrightarrow>
             e' \<in> set (evictList (unlinked e kv c)) \<and> (\<exists>kv'. heap (unlinked e kv c) e' = Some kv' \<and> key kv' = k)"
  proof (intro allI impI)
    fix k e' assume "items (unlinked e kv c) k = Some e'"
    then have k: "k \<noteq> key kv" "items c k = Some e'" by (auto simp: unlinked_def split: if_splits)
    from inv_items [OF inv k(2)] obtain kv' where kv': "e' \<in> set (evictList c)" "heap c e' = Some kv'" "key kv' = k"
      by auto
    have "e' \<noteq> e" using kv' h k(1) by auto
    then show "e' \<in> set (evictList (unlinked e kv c)) \<and> (\<exists>kv'. heap (unlinked e kv c) e' = Some kv' \<and> key kv' = k)"
      using kv' by (simp add: unlinked_def)
  qed
  have "distinct (evictList (unlinked e kv c))" using d by (simp add: unlinked_def)
  with a b tw show ?thesis unfolding lru_inv_def by blast
qed


subsection \<open>The eviction loop refines its specification\<close>

lemma removeOldest_empty: "evictList c = [] \<Longrightarrow> removeOldest c = Inr c"
  by (simp add: removeOldest_def Back_def)

lemma spec_drop_lru_unlinked:
  assumes "distinct (evictList c)" "evictList c \<noteq> []" "heap c (last (evictList c)) = Some kv"
  shows "spec_drop_lru c = unlinked (last (evictList c)) kv c"
  using assms by (simp add: spec_drop_lru_def unlinked_def remove1_last_distinct)

lemma removeOldest_spec:
  assumes inv: "lru_inv c" and ne: "evictList c \<noteq> []"
  shows "removeOldest c = Inr (spec_drop_lru c)" and "lru_inv (spec_drop_lru c)"
proof -
  have d: "distinct (evictList c)" using inv by (simp add: lru_inv_def)
  have e: "last (evictList c) \<in> set (evictList c)" using ne by simp
  from inv_heap [OF inv e] obtain kv where kv: "heap c (last (evictList c)) = Some kv" by auto
  have eq: "spec_drop_lru c = unlinked (last (evictList c)) kv c"
    by (rule spec_drop_lru_unlinked [OF d ne kv])
  show "removeOldest c = Inr (spec_drop_lru c)"
    using ne by (simp add: removeOldest_def Back_def removeElement_unlinked [OF kv] eq)
  show "lru_inv (spec_drop_lru c)"
    unfolding eq by (rule lru_inv_unlinked [OF inv e kv])
qed

lemma inv_empty_size: "lru_inv c \<Longrightarrow> evictList c = [] \<Longrightarrow> size_acc c = 0"
  by (simp add: lru_inv_def total_weight_def weights_def entries_def)

lemma spec_drop_lru_frame:
  "limit (spec_drop_lru c) = limit c" "onEvict (spec_drop_lru c) = onEvict c"
  "onAccount (spec_drop_lru c) = onAccount c" "heap (spec_drop_lru c) = heap c"
  "fresh (spec_drop_lru c) = fresh c"
  "evictList (spec_drop_lru c) = butlast (evictList c)"
  by (simp_all add: spec_drop_lru_def split: option.splits)

lemma spec_evict_stop:
  "\<not> (limit c <s size_acc c \<and> evictList c \<noteq> []) \<Longrightarrow> spec_evict c = c"
  by (subst spec_evict.simps) auto

lemma spec_evict_go:
  "limit c <s size_acc c \<Longrightarrow> evictList c \<noteq> [] \<Longrightarrow> spec_evict c = spec_evict (spec_drop_lru c)"
  by (subst spec_evict.simps) simp

lemma spec_evict_frame:
  "limit (spec_evict c) = limit c \<and> onEvict (spec_evict c) = onEvict c
   \<and> onAccount (spec_evict c) = onAccount c \<and> heap (spec_evict c) = heap c
   \<and> fresh (spec_evict c) = fresh c"
proof (induction c rule: spec_evict.induct)
  case (1 c)
  show ?case
  proof (cases "limit c <s size_acc c \<and> evictList c \<noteq> []")
    case True
    with 1 show ?thesis by (simp add: spec_evict_go spec_drop_lru_frame)
  next
    case False
    from spec_evict_stop [OF False] have "spec_evict c = c" .
    then show ?thesis using False by simp
  qed
qed

lemma spec_evict_inv: "lru_inv c \<Longrightarrow> lru_inv (spec_evict c)"
proof (induction c rule: spec_evict.induct)
  case (1 c)
  show ?case
  proof (cases "limit c <s size_acc c \<and> evictList c \<noteq> []")
    case True
    then have "lru_inv (spec_drop_lru c)" using removeOldest_spec(2) "1.prems" by blast
    with 1 True show ?thesis by (simp add: spec_evict_go)
  next
    case False
    from spec_evict_stop [OF False] have "spec_evict c = c" .
    then show ?thesis using "1.prems" by simp
  qed
qed

lemma spec_evict_exit:
  "\<not> (limit (spec_evict c) <s size_acc (spec_evict c) \<and> evictList (spec_evict c) \<noteq> [])"
proof (induction c rule: spec_evict.induct)
  case (1 c)
  show ?case
  proof (cases "limit c <s size_acc c \<and> evictList c \<noteq> []")
    case True
    with 1 show ?thesis by (simp add: spec_evict_go)
  next
    case False
    from spec_evict_stop [OF False] have "spec_evict c = c" .
    then show ?thesis using False by simp
  qed
qed

lemma evictLoop_spec:
  "lru_inv c \<Longrightarrow> 0 \<le>s limit c \<Longrightarrow> evictLoop c = Some (Inr (spec_evict c))"
proof (induction c rule: spec_evict.induct)
  case (1 c)
  show ?case
  proof (cases "limit c <s size_acc c")
    case True
    have ne: "evictList c \<noteq> []"
    proof
      assume "evictList c = []"
      then have "size_acc c = 0" using "1.prems"(1) by (rule inv_empty_size [rotated])
      with True "1.prems"(2) show False by (simp add: word_sless_alt word_sle_eq)
    qed
    have ro: "removeOldest c = Inr (spec_drop_lru c)" and inv': "lru_inv (spec_drop_lru c)"
      using removeOldest_spec [OF "1.prems"(1) ne] by auto
    have "evictLoop (spec_drop_lru c) = Some (Inr (spec_evict (spec_drop_lru c)))"
      using "1.IH" True ne inv' "1.prems"(2) by (simp add: spec_drop_lru_frame)
    then show ?thesis
      using True ne ro by (subst evictLoop.simps) (simp add: spec_evict_go)
  next
    case False
    then show ?thesis by (subst evictLoop.simps) (simp add: spec_evict_stop)
  qed
qed

lemma entries_spec_drop_lru:
  assumes inv: "lru_inv c" and ne: "evictList c \<noteq> []"
  shows "\<exists>kv. heap c (last (evictList c)) = Some kv
     \<and> entries c = entries (spec_drop_lru c) @ [(key kv, val kv)]
     \<and> evictCalls (spec_drop_lru c) = (if onEvict c then evictCalls c @ [(key kv, val kv)] else evictCalls c)
     \<and> items (spec_drop_lru c) = (items c)(key kv := None)
     \<and> size_acc (spec_drop_lru c) = size_acc c - onAccount c (key kv) (val kv)"
proof -
  have e: "last (evictList c) \<in> set (evictList c)" using ne by simp
  from inv_heap [OF inv e] obtain kv where kv: "heap c (last (evictList c)) = Some kv" by auto
  have l: "evictList c = butlast (evictList c) @ [last (evictList c)]" using ne by simp
  have "entries c = entries_of (heap c) (butlast (evictList c)) @ entries_of (heap c) [last (evictList c)]"
    unfolding entries_def by (subst l, simp only: entries_of_append)
  then have "entries c = entries (spec_drop_lru c) @ [(key kv, val kv)]"
    by (simp add: entries_def spec_drop_lru_frame entries_of_Cons entry_at_def kv)
  then show ?thesis using kv by (simp add: spec_drop_lru_def)
qed

text \<open>What the specified loop removes: the back of the list, oldest first.\<close>

lemma spec_evict_calls:
  "lru_inv c \<Longrightarrow>
   \<exists>ev. entries c = entries (spec_evict c) @ rev ev
      \<and> evictCalls (spec_evict c) = (if onEvict c then evictCalls c @ ev else evictCalls c)
      \<and> evictList c = evictList (spec_evict c) @ drop (length (evictList (spec_evict c))) (evictList c)
      \<and> length ev + length (evictList (spec_evict c)) = length (evictList c)"
proof (induction c rule: spec_evict.induct)
  case (1 c)
  show ?case
  proof (cases "limit c <s size_acc c \<and> evictList c \<noteq> []")
    case True
    then have ne: "evictList c \<noteq> []" by simp
    have inv': "lru_inv (spec_drop_lru c)" using removeOldest_spec(2) [OF "1.prems" ne] .
    from "1.IH" [OF True inv'] obtain ev where ev:
      "entries (spec_drop_lru c) = entries (spec_evict (spec_drop_lru c)) @ rev ev"
      "evictCalls (spec_evict (spec_drop_lru c)) =
         (if onEvict (spec_drop_lru c) then evictCalls (spec_drop_lru c) @ ev else evictCalls (spec_drop_lru c))"
      "evictList (spec_drop_lru c) = evictList (spec_evict (spec_drop_lru c))
          @ drop (length (evictList (spec_evict (spec_drop_lru c)))) (evictList (spec_drop_lru c))"
      "length ev + length (evictList (spec_evict (spec_drop_lru c))) = length (evictList (spec_drop_lru c))"
      by blast
    from entries_spec_drop_lru [OF "1.prems" ne] obtain kv where kv0: "heap c (last (evictList c)) = Some kv" and kv:
      "entries c = entries (spec_drop_lru c) @ [(key kv, val kv)]"
      "evictCalls (spec_drop_lru c) = (if onEvict c then evictCalls c @ [(key kv, val kv)] else evictCalls c)"
      by (elim exE conjE)
    have se: "spec_evict c = spec_evict (spec_drop_lru c)" using True by (simp add: spec_evict_go)
    have l: "evictList c = butlast (evictList c) @ [last (evictList c)]" using ne by simp
    have pre: "length (evictList (spec_evict c)) \<le> length (butlast (evictList c))"
      using ev(4) by (simp add: se spec_drop_lru_frame)
    have a: "entries c = entries (spec_evict c) @ rev ((key kv, val kv) # ev)"
      using ev(1) kv(1) by (simp add: se)
    have b: "evictCalls (spec_evict c) = (if onEvict c then evictCalls c @ ((key kv, val kv) # ev) else evictCalls c)"
      using ev(2) kv(2) by (simp add: se spec_drop_lru_frame)
    have "take (length (evictList (spec_evict c))) (evictList c) = evictList (spec_evict c)"
    proof -
      have "take (length (evictList (spec_evict c))) (evictList c)
          = take (length (evictList (spec_evict c))) (butlast (evictList c))"
        using pre by (subst l) simp
      also have "\<dots> = evictList (spec_evict c)"
        using ev(3) by (metis se spec_drop_lru_frame(6) append_eq_conv_conj)
      finally show ?thesis .
    qed
    then have c: "evictList c = evictList (spec_evict c) @ drop (length (evictList (spec_evict c))) (evictList c)"
      by (metis append_take_drop_id)
    have d: "length ((key kv, val kv) # ev) + length (evictList (spec_evict c)) = length (evictList c)"
      using ev(4) ne by (simp add: se spec_drop_lru_frame)
    from a b c d show ?thesis by blast
  next
    case False
    then have "spec_evict c = c" by (rule spec_evict_stop)
    then show ?thesis by (intro exI [of _ "[]"]) simp
  qed
qed


subsection \<open>The placement step of Add\<close>

lemma Add_place_new: "items c k = None \<Longrightarrow> Add_place k v c = Inr (placed_new k v c)"
  by (simp add: Add_place_def placed_new_def PushFront_def Let_def)

lemma Add_place_upd:
  "items c k = Some e \<Longrightarrow> e \<in> set (evictList c) \<Longrightarrow> heap c e = Some kv \<Longrightarrow>
   Add_place k v c = Inr (placed_upd e kv v c)"
  by (simp add: Add_place_def placed_upd_def MoveToFront_def Let_def)

lemma inv_fresh: "lru_inv c \<Longrightarrow> fresh c \<notin> set (evictList c)"
  by (auto simp: lru_inv_def)

lemma entries_placed_new:
  assumes "fresh c \<notin> set (evictList c)"
  shows "entries (placed_new k v c) = (k, v) # entries c"
proof -
  have "entries_of ((heap c)(fresh c \<mapsto> \<lparr>key = k, val = v\<rparr>)) (evictList c)
      = entries_of (heap c) (evictList c)"
    using assms by (intro entries_of_cong) auto
  then show ?thesis
    by (simp add: entries_def placed_new_def entries_of_Cons entry_at_def)
qed

lemma lru_inv_placed_new:
  assumes inv: "lru_inv c" and k: "items c k = None"
  shows "lru_inv (placed_new k v c)"
proof -
  have f: "fresh c \<notin> set (evictList c)" using inv by (rule inv_fresh)
  have d: "distinct (evictList (placed_new k v c))"
    using inv f by (simp add: lru_inv_def placed_new_def)
  have tw: "size_acc (placed_new k v c) = total_weight (placed_new k v c)"
  proof -
    have "onAccount (placed_new k v c) = onAccount c" by (simp add: placed_new_def)
    then have "total_weight (placed_new k v c) = onAccount c k v + total_weight c"
      by (simp add: total_weight_def weights_def entries_placed_new [OF f])
    then show ?thesis using inv by (simp add: lru_inv_def placed_new_def)
  qed
  have a: "\<forall>e \<in> set (evictList (placed_new k v c)). e < fresh (placed_new k v c) \<and>
             (\<exists>kv. heap (placed_new k v c) e = Some kv \<and> items (placed_new k v c) (key kv) = Some e)"
  proof
    fix e assume e: "e \<in> set (evictList (placed_new k v c))"
    show "e < fresh (placed_new k v c) \<and>
             (\<exists>kv. heap (placed_new k v c) e = Some kv \<and> items (placed_new k v c) (key kv) = Some e)"
    proof (cases "e = fresh c")
      case True
      then show ?thesis by (simp add: placed_new_def)
    next
      case False
      then have e': "e \<in> set (evictList c)" using e by (simp add: placed_new_def)
      from inv e' obtain kv where kv: "e < fresh c" "heap c e = Some kv" "items c (key kv) = Some e"
        by (auto simp: lru_inv_def)
      have "key kv \<noteq> k" using kv(3) k by auto
      then show ?thesis using kv False by (simp add: placed_new_def)
    qed
  qed
  have b: "\<forall>k' e. items (placed_new k v c) k' = Some e \<longrightarrow>
             e \<in> set (evictList (placed_new k v c)) \<and>
             (\<exists>kv. heap (placed_new k v c) e = Some kv \<and> key kv = k')"
  proof (intro allI impI)
    fix k' e assume i: "items (placed_new k v c) k' = Some e"
    show "e \<in> set (evictList (placed_new k v c)) \<and>
             (\<exists>kv. heap (placed_new k v c) e = Some kv \<and> key kv = k')"
    proof (cases "k' = k")
      case True
      then show ?thesis using i by (auto simp: placed_new_def)
    next
      case False
      then have i': "items c k' = Some e" using i by (simp add: placed_new_def)
      from inv_items [OF inv i'] obtain kv where kv: "e \<in> set (evictList c)" "heap c e = Some kv" "key kv = k'"
        by auto
      have "e \<noteq> fresh c" using kv(1) f by auto
      then show ?thesis using kv by (simp add: placed_new_def)
    qed
  qed
  from d a b tw show ?thesis unfolding lru_inv_def by blast
qed

lemma entries_placed_upd:
  assumes d: "distinct (evictList c)" and l: "evictList c = xs @ e # ys" and h: "heap c e = Some kv"
  shows "entries (placed_upd e kv v c) = (key kv, v) # entries_of (heap c) xs @ entries_of (heap c) ys"
proof -
  have n: "e \<notin> set xs" "e \<notin> set ys" using d l by auto
  have "entries_of ((heap c)(e \<mapsto> kv\<lparr>val := v\<rparr>)) xs = entries_of (heap c) xs"
       "entries_of ((heap c)(e \<mapsto> kv\<lparr>val := v\<rparr>)) ys = entries_of (heap c) ys"
    using n by (auto intro!: entries_of_cong)
  then show ?thesis
    using n l by (simp add: entries_def placed_upd_def entries_of_Cons entries_of_append
        entry_at_def remove1_split)
qed

lemma lru_inv_placed_upd:
  assumes inv: "lru_inv c" and i: "items c k = Some e" and h: "heap c e = Some kv"
  shows "lru_inv (placed_upd e kv v c)"
proof -
  have d0: "distinct (evictList c)" using inv by (simp add: lru_inv_def)
  have e: "e \<in> set (evictList c)" and kk: "key kv = k" using inv_items [OF inv i] h by auto
  from e obtain xs ys where l: "evictList c = xs @ e # ys" by (meson split_list)
  have s: "set (evictList (placed_upd e kv v c)) = set (evictList c)"
    using e d0 by (auto simp: placed_upd_def)
  have d: "distinct (evictList (placed_upd e kv v c))"
    using d0 by (simp add: placed_upd_def)
  have tw: "size_acc (placed_upd e kv v c) = total_weight (placed_upd e kv v c)"
  proof -
    have oa: "onAccount (placed_upd e kv v c) = onAccount c" by (simp add: placed_upd_def)
    have "total_weight c = sum_list (map (\<lambda>(k, v). onAccount c k v) (entries_of (heap c) xs))
            + onAccount c (key kv) (val kv)
            + sum_list (map (\<lambda>(k, v). onAccount c k v) (entries_of (heap c) ys))"
      using l h by (simp add: total_weight_def weights_def entries_def entries_of_append
          entries_of_Cons entry_at_def)
    moreover have "total_weight (placed_upd e kv v c)
          = onAccount c (key kv) v
            + sum_list (map (\<lambda>(k, v). onAccount c k v) (entries_of (heap c) xs))
            + sum_list (map (\<lambda>(k, v). onAccount c k v) (entries_of (heap c) ys))"
      by (simp add: total_weight_def weights_def oa entries_placed_upd [OF d0 l h])
    ultimately show ?thesis using inv by (simp add: lru_inv_def placed_upd_def)
  qed
  have a: "\<forall>e' \<in> set (evictList (placed_upd e kv v c)). e' < fresh (placed_upd e kv v c) \<and>
             (\<exists>kv'. heap (placed_upd e kv v c) e' = Some kv' \<and>
                    items (placed_upd e kv v c) (key kv') = Some e')"
  proof
    fix e' assume "e' \<in> set (evictList (placed_upd e kv v c))"
    then have e': "e' \<in> set (evictList c)" using s by simp
    from inv e' obtain kv' where kv': "e' < fresh c" "heap c e' = Some kv'" "items c (key kv') = Some e'"
      by (auto simp: lru_inv_def)
    show "e' < fresh (placed_upd e kv v c) \<and>
             (\<exists>kv'. heap (placed_upd e kv v c) e' = Some kv' \<and>
                    items (placed_upd e kv v c) (key kv') = Some e')"
      using kv' h i kk by (cases "e' = e") (auto simp: placed_upd_def)
  qed
  have b: "\<forall>k' e'. items (placed_upd e kv v c) k' = Some e' \<longrightarrow>
             e' \<in> set (evictList (placed_upd e kv v c)) \<and>
             (\<exists>kv'. heap (placed_upd e kv v c) e' = Some kv' \<and> key kv' = k')"
  proof (intro allI impI)
    fix k' e' assume "items (placed_upd e kv v c) k' = Some e'"
    then have i': "items c k' = Some e'" by (simp add: placed_upd_def)
    from inv_items [OF inv i'] obtain kv' where kv': "e' \<in> set (evictList c)" "heap c e' = Some kv'" "key kv' = k'"
      by auto
    show "e' \<in> set (evictList (placed_upd e kv v c)) \<and>
             (\<exists>kv'. heap (placed_upd e kv v c) e' = Some kv' \<and> key kv' = k')"
      using kv' h s by (cases "e' = e") (auto simp: placed_upd_def)
  qed
  from d a b tw show ?thesis unfolding lru_inv_def by blast
qed

text \<open>The placement step of \<^verbatim>\<open>Add\<close> on a well-formed cache.\<close>

lemma Add_place_cases:
  assumes inv: "lru_inv c"
  shows "(items c k = None \<and> Add_place k v c = Inr (placed_new k v c))
       \<or> (\<exists>e kv. items c k = Some e \<and> heap c e = Some kv \<and> key kv = k
             \<and> e \<in> set (evictList c) \<and> Add_place k v c = Inr (placed_upd e kv v c))"
proof (cases "items c k")
  case None
  then show ?thesis by (simp add: Add_place_new)
next
  case (Some e)
  from inv_items [OF inv Some] obtain kv where kv: "e \<in> set (evictList c)" "heap c e = Some kv" "key kv = k"
    by auto
  then show ?thesis using Some Add_place_upd [OF Some kv(1) kv(2)] by auto
qed

lemma Add_place_inv:
  assumes inv: "lru_inv c"
  shows "\<exists>c'. Add_place k v c = Inr c' \<and> lru_inv c' \<and> limit c' = limit c
            \<and> onEvict c' = onEvict c \<and> onAccount c' = onAccount c
            \<and> evictCalls c' = evictCalls c \<and> evictList c' \<noteq> []
            \<and> hd (entries c') = (k, v)"
  using Add_place_cases [OF inv, of k v]
proof (elim disjE conjE exE)
  assume n: "items c k = None" and a: "Add_place k v c = Inr (placed_new k v c)"
  have "hd (entries (placed_new k v c)) = (k, v)"
    by (simp add: entries_placed_new [OF inv_fresh [OF inv]])
  then show ?thesis using a lru_inv_placed_new [OF inv n, of v]
    by (simp add: placed_new_def)
next
  fix e kv
  assume i: "items c k = Some e" and h: "heap c e = Some kv" and kk: "key kv = k"
    and e: "e \<in> set (evictList c)" and a: "Add_place k v c = Inr (placed_upd e kv v c)"
  have d0: "distinct (evictList c)" using inv by (simp add: lru_inv_def)
  from e obtain xs ys where l: "evictList c = xs @ e # ys" by (meson split_list)
  have "hd (entries (placed_upd e kv v c)) = (k, v)"
    by (simp add: entries_placed_upd [OF d0 l h] kk)
  then show ?thesis using a lru_inv_placed_upd [OF inv i h, of v]
    by (simp add: placed_upd_def)
qed

subsection \<open>Divergence, and Add as a whole\<close>

text \<open>The loop on an empty list with the size above the limit: no exit.\<close>

lemma evictLoop_no_exit:
  assumes "evictLoop c = Some r"
  shows "\<not> (evictList c = [] \<and> limit c <s size_acc c)"
proof (rule evictLoop.raw_induct
    [where P = "\<lambda>c r. \<not> (evictList c = [] \<and> limit c <s size_acc c)", OF _ assms])
  fix f :: "('a, 'b) LRUWithAccounting \<Rightarrow> (error + ('a, 'b) LRUWithAccounting) option"
  fix c r
  assume IH: "\<And>x y. f x = Some y \<Longrightarrow> \<not> (evictList x = [] \<and> limit x <s size_acc x)"
    and body: "(if limit c <s size_acc c
                then case removeOldest c of Inl err \<Rightarrow> Some (Inl err) | Inr c' \<Rightarrow> f c'
                else Some (Inr c)) = Some r"
  show "\<not> (evictList c = [] \<and> limit c <s size_acc c)"
  proof
    assume a: "evictList c = [] \<and> limit c <s size_acc c"
    then have "f c = Some r" using body by (simp add: removeOldest_empty)
    from IH [OF this] a show False by simp
  qed
qed

lemma evictLoop_diverges:
  "evictList c = [] \<Longrightarrow> limit c <s size_acc c \<Longrightarrow> evictLoop c = None"
  using evictLoop_no_exit [of c] by (cases "evictLoop c") auto

lemma ex_cache_inv: "lru_inv ex_cache"
  by (auto simp: lru_inv_def ex_cache_def total_weight_def weights_def entries_def
      entries_of_def entry_at_def ex_account_def split: if_splits)

lemma ex_negative_inv: "lru_inv ex_negative"
  by (simp add: lru_inv_def ex_negative_def total_weight_def weights_def entries_def)



lemma inv_over_limit_nonempty:
  assumes "lru_inv c" "0 \<le>s limit c" "limit c <s size_acc c"
  shows "evictList c \<noteq> []"
proof
  assume "evictList c = []"
  then have "size_acc c = 0" using assms(1) by (simp add: inv_empty_size)
  with assms(2,3) show False by (simp add: word_sless_alt word_sle_eq)
qed

text \<open>\<^verbatim>\<open>Add\<close> on a well-formed cache with a limit that is not negative.\<close>

lemma Add_spec:
  assumes inv: "lru_inv c" and lim: "0 \<le>s limit c"
  shows "\<exists>c1. Add_place k v c = Inr c1 \<and> lru_inv c1 \<and> limit c1 = limit c
            \<and> onEvict c1 = onEvict c \<and> onAccount c1 = onAccount c
            \<and> evictCalls c1 = evictCalls c \<and> evictList c1 \<noteq> []
            \<and> hd (entries c1) = (k, v)
            \<and> Add k v c = Some (Inr (limit c1 <s size_acc c1, spec_evict c1))"
proof -
  from Add_place_inv [OF inv, of k v] obtain c1 where
    c1: "Add_place k v c = Inr c1" "lru_inv c1" "limit c1 = limit c"
        "onEvict c1 = onEvict c" "onAccount c1 = onAccount c"
        "evictCalls c1 = evictCalls c" "evictList c1 \<noteq> []" "hd (entries c1) = (k, v)"
    by blast
  have "evictLoop c1 = Some (Inr (spec_evict c1))"
    using c1(2,3) lim by (simp add: evictLoop_spec)
  then have "Add k v c = Some (Inr (limit c1 <s size_acc c1, spec_evict c1))"
    using c1(1) by (simp add: Add_def evictIfNeeded_def)
  with c1 show ?thesis by blast
qed

lemma ex_place: "Add_place 3 7 ex_cache = Inr (placed_new 3 7 ex_cache)"
  by (simp add: Add_place_new ex_cache_def)



lemma ex_cache_Add:
  "Add 3 7 ex_cache = Some (Inr (True, spec_evict (placed_new 3 7 ex_cache)))"
proof -
  have lim: "0 \<le>s limit ex_cache" by (simp add: ex_cache_def word_sle_eq)
  have s: "limit (placed_new 3 7 ex_cache) <s size_acc (placed_new 3 7 ex_cache)"
    by (simp add: placed_new_def ex_cache_def ex_account_def word_sless_alt)
  from Add_spec [OF ex_cache_inv lim, of 3 7] ex_place s show ?thesis by auto
qed

lemma ex_evict_entries: "entries (spec_evict (placed_new 3 7 ex_cache)) = [(3, 7)]"
  by (simp add: spec_evict_go spec_evict_stop spec_drop_lru_def placed_new_def ex_cache_def
      ex_account_def word_sless_alt entries_def entries_of_def entry_at_def)


subsection \<open>Remove, Get and Keys\<close>

lemma length_remove1_mem: "e \<in> set l \<Longrightarrow> length (remove1 e l) + 1 = length l"
  by (induction l) auto

lemma Remove_present:
  assumes inv: "lru_inv c" and i: "items c k = Some e"
  shows "\<exists>kv. heap c e = Some kv \<and> key kv = k \<and> e \<in> set (evictList c)
           \<and> Remove k c = Inr (True, unlinked e kv c) \<and> lru_inv (unlinked e kv c)"
proof -
  from inv_items [OF inv i] obtain kv where
    kv: "e \<in> set (evictList c)" "heap c e = Some kv" "key kv = k"
    by auto
  have "Remove k c = Inr (True, unlinked e kv c)"
    using i by (simp add: Remove_def removeElement_unlinked [OF kv(2)])
  with kv lru_inv_unlinked [OF inv kv(1,2)] show ?thesis by blast
qed


lemma entries_of_map:
  "\<forall>e \<in> set l. h e \<noteq> None \<Longrightarrow>
   entries_of h l = map (\<lambda>e. (key (the (h e)), val (the (h e)))) l"
  by (induction l) (auto simp: entries_of_Cons entry_at_def split: option.splits)

lemma inv_heap_Some: "lru_inv c \<Longrightarrow> \<forall>e \<in> set (evictList c). heap c e \<noteq> None"
  by (auto simp: lru_inv_def)

lemma inv_entries_map:
  "lru_inv c \<Longrightarrow>
   entries c = map (\<lambda>e. (key (the (heap c e)), val (the (heap c e)))) (evictList c)"
  unfolding entries_def by (rule entries_of_map) (rule inv_heap_Some)

lemma inv_keys_inj: "lru_inv c \<Longrightarrow> inj_on (\<lambda>e. key (the (heap c e))) (set (evictList c))"
proof (rule inj_onI)
  fix x y
  assume inv: "lru_inv c" and x: "x \<in> set (evictList c)" and y: "y \<in> set (evictList c)"
    and eq: "key (the (heap c x)) = key (the (heap c y))"
  from inv_heap [OF inv x] inv_heap [OF inv y] eq show "x = y" by auto
qed

lemma inv_distinct_keys: "lru_inv c \<Longrightarrow> distinct (map fst (entries c))"
proof -
  assume inv: "lru_inv c"
  have "map fst (entries c) = map (\<lambda>e. key (the (heap c e))) (evictList c)"
    by (simp add: inv_entries_map [OF inv] comp_def)
  moreover have "distinct (evictList c)" using inv by (simp add: lru_inv_def)
  ultimately show ?thesis using inv_keys_inj [OF inv] by (simp add: distinct_map)
qed

lemma inv_dom_items: "lru_inv c \<Longrightarrow> dom (items c) = fst ` set (entries c)"
proof -
  assume inv: "lru_inv c"
  have e: "fst ` set (entries c) = (\<lambda>e. key (the (heap c e))) ` set (evictList c)"
    by (simp add: inv_entries_map [OF inv] image_image)
  show ?thesis unfolding e
  proof (intro set_eqI iffI)
    fix k assume "k \<in> dom (items c)"
    then obtain e where "items c k = Some e" by auto
    from inv_items [OF inv this] show "k \<in> (\<lambda>e. key (the (heap c e))) ` set (evictList c)"
      by force
  next
    fix k assume "k \<in> (\<lambda>e. key (the (heap c e))) ` set (evictList c)"
    then obtain e where e: "e \<in> set (evictList c)" "k = key (the (heap c e))" by auto
    from inv_heap [OF inv e(1)] e(2) show "k \<in> dom (items c)" by auto
  qed
qed

lemma inv_card_items: "lru_inv c \<Longrightarrow> card (dom (items c)) = length (evictList c)"
proof -
  assume inv: "lru_inv c"
  have "card (dom (items c)) = card (set (map fst (entries c)))"
    by (simp add: inv_dom_items [OF inv])
  also have "\<dots> = length (map fst (entries c))"
    by (rule distinct_card [OF inv_distinct_keys [OF inv]])
  also have "\<dots> = length (evictList c)" by (simp add: inv_entries_map [OF inv])
  finally show ?thesis .
qed

lemma Keys_walk_entries:
  "\<forall>e \<in> set l. h e \<noteq> None \<Longrightarrow> Keys_walk h l = Inr (map fst (entries_of h l))"
  by (induction l) (auto simp: entries_of_Cons entry_at_def split: option.splits)

lemma Keys_inv:
  assumes inv: "lru_inv c"
  shows "Keys c = Inr (map Some (rev (map fst (entries c))))"
proof -
  have h: "\<forall>e \<in> set (rev (evictList c)). heap c e \<noteq> None"
    using inv_heap_Some [OF inv] by simp
  have w: "Keys_walk (heap c) (rev (evictList c)) = Inr (rev (map fst (entries c)))"
    unfolding Keys_walk_entries [OF h]
    using h by (simp add: entries_of_map inv_entries_map [OF inv] rev_map)
  show ?thesis
    by (simp add: Keys_def inv_card_items [OF inv] w inv_entries_map [OF inv])
qed

lemma lru_inv_promoted:
  assumes inv: "lru_inv c" and e: "e \<in> set (evictList c)"
  shows "lru_inv (promoted e c)"
proof -
  have d: "distinct (evictList c)" using inv by (simp add: lru_inv_def)
  from e obtain xs ys where l: "evictList c = xs @ e # ys" by (meson split_list)
  have n: "e \<notin> set xs" "e \<notin> set ys" using d l by auto
  have s: "set (evictList (promoted e c)) = set (evictList c)"
    using l n by (auto simp: promoted_def remove1_split)
  have d': "distinct (evictList (promoted e c))" using d by (simp add: promoted_def)
  have tw: "total_weight (promoted e c) = total_weight c"
    using l n by (simp add: total_weight_def weights_def entries_def promoted_def remove1_split
        entries_of_append entries_of_Cons)
  show ?thesis
    using inv unfolding lru_inv_def s tw
    by (simp add: d') (simp add: promoted_def)
qed

lemma entries_promoted:
  assumes d: "distinct (evictList c)" and l: "evictList c = xs @ e # ys" and h: "heap c e = Some kv"
  shows "entries (promoted e c) = (key kv, val kv) # entries_of (heap c) xs @ entries_of (heap c) ys"
proof -
  have n: "e \<notin> set xs" using d l by auto
  then show ?thesis
    using l h by (simp add: entries_def promoted_def remove1_split entries_of_Cons
        entries_of_append entry_at_def)
qed

lemma Get_present:
  "items c k = Some e \<Longrightarrow> e \<in> set (evictList c) \<Longrightarrow> heap c e = Some kv \<Longrightarrow>
   Get k c = (Some (val kv), promoted e c)"
  by (simp add: Get_def promoted_def MoveToFront_def Let_def)


lemma ex_cache_Keys: "Keys ex_cache = Inr [Some 1, Some 2]"
  unfolding Keys_inv [OF ex_cache_inv]
  by (simp add: entries_def entries_of_def entry_at_def ex_cache_def)


subsection \<open>Purge\<close>

lemma Purge_range_result:
  assumes "\<forall>k e. items c k = Some e \<longrightarrow> heap c e \<noteq> None" and "distinct ks"
  shows "\<exists>c'. Purge_range ks c = Inr c'
           \<and> c' = c\<lparr>items := (\<lambda>k. if k \<in> set ks then None else items c k),
                    evictCalls := (if onEvict c
                                   then evictCalls c @ concat (map (purge_call c) ks)
                                   else evictCalls c)\<rparr>"
  using assms
proof (induction ks arbitrary: c)
  case Nil
  then show ?case by simp
next
  case (Cons k ks)
  obtain c1 where c1: "Purge_step k c = Inr c1"
    "c1 = c\<lparr>items := (items c)(k := None),
             evictCalls := (if onEvict c then evictCalls c @ purge_call c k else evictCalls c)\<rparr>"
  proof (cases "items c k")
    case None
    then have "Purge_step k c = Inr c" and "purge_call c k = []" and "(items c)(k := None) = items c"
      by (auto simp: Purge_step_def purge_call_def)
    then show ?thesis using that [of c] by simp
  next
    case (Some e)
    with Cons.prems(1) obtain kv where kv: "heap c e = Some kv" by auto
    show ?thesis
      using that [of "c\<lparr>items := (items c)(k := None),
             evictCalls := (if onEvict c then evictCalls c @ purge_call c k else evictCalls c)\<rparr>"]
        Some kv
      by (simp add: Purge_step_def purge_call_def)
  qed
  have p1: "\<forall>k e. items c1 k = Some e \<longrightarrow> heap c1 e \<noteq> None"
    using Cons.prems(1) by (auto simp: c1(2) split: if_splits)
  have d: "distinct ks" and nk: "k \<notin> set ks" using Cons.prems(2) by auto
  from Cons.IH [OF p1 d] obtain c' where c':
    "Purge_range ks c1 = Inr c'"
    "c' = c1\<lparr>items := (\<lambda>k. if k \<in> set ks then None else items c1 k),
             evictCalls := (if onEvict c1
                            then evictCalls c1 @ concat (map (purge_call c1) ks)
                            else evictCalls c1)\<rparr>"
    by blast
  have pc: "map (purge_call c1) ks = map (purge_call c) ks"
    using nk by (auto simp: purge_call_def c1(2) split: option.splits)
  have it: "(\<lambda>k'. if k' \<in> set ks then None else items c1 k')
          = (\<lambda>k'. if k' \<in> set (k # ks) then None else items c k')"
    by (auto simp: c1(2))
  have "c' = c\<lparr>items := (\<lambda>k'. if k' \<in> set (k # ks) then None else items c k'),
                evictCalls := (if onEvict c
                               then evictCalls c @ concat (map (purge_call c) (k # ks))
                               else evictCalls c)\<rparr>"
    unfolding c'(2) pc it by (simp add: c1(2))
  then show ?case using c1(1) c'(1) by simp
qed

lemma purge_calls_entries:
  assumes inv: "lru_inv c" and d: "distinct ks" and s: "set ks = dom (items c)"
  shows "mset (concat (map (purge_call c) ks)) = mset (entries c)"
    and "map fst (concat (map (purge_call c) ks)) = ks"
proof -
  let ?f = "\<lambda>k. (k, val (the (heap c (the (items c k)))))"
  let ?g = "\<lambda>e. (key (the (heap c e)), val (the (heap c e)))"
  have pc: "purge_call c k = [?f k]" if "k \<in> set ks" for k
  proof -
    from that s obtain e where e: "items c k = Some e" by auto
    from inv_items [OF inv e] show ?thesis using e by (auto simp: purge_call_def)
  qed
  have c: "concat (map (purge_call c) ks) = map ?f ks"
  proof -
    have "\<forall>k \<in> set l. purge_call c k = [?f k] \<Longrightarrow> concat (map (purge_call c) l) = map ?f l"
      for l by (induction l) auto
    then show ?thesis using pc by blast
  qed
  show "map fst (concat (map (purge_call c) ks)) = ks"
    unfolding c by (simp add: comp_def)
  have "set ks = set (map fst (entries c))"
    using s inv_dom_items [OF inv] by simp
  then have ks: "mset ks = mset (map fst (entries c))"
    using d inv_distinct_keys [OF inv] by (simp only: set_eq_iff_mset_eq_distinct)
  have "mset (map ?f ks) = image_mset ?f (mset ks)" by simp
  also have "\<dots> = image_mset ?f (mset (map fst (entries c)))"
    by (simp only: ks)
  also have "\<dots> = image_mset ?f (image_mset (\<lambda>e. key (the (heap c e))) (mset (evictList c)))"
    by (simp add: inv_entries_map [OF inv] comp_def)
  also have "\<dots> = image_mset ?g (mset (evictList c))"
  proof -
    have "?f (key (the (heap c e))) = ?g e" if "e \<in> set (evictList c)" for e
      using inv_heap [OF inv that] by auto
    then have "image_mset (?f \<circ> (\<lambda>e. key (the (heap c e)))) (mset (evictList c))
        = image_mset ?g (mset (evictList c))"
      by (intro image_mset_cong) simp
    then show ?thesis by (simp add: image_mset.compositionality)
  qed
  also have "\<dots> = mset (entries c)" by (simp add: inv_entries_map [OF inv])
  finally show "mset (concat (map (purge_call c) ks)) = mset (entries c)" unfolding c .
qed

lemma Purge_result:
  assumes inv: "lru_inv c" and d: "distinct ks" and s: "set ks = dom (items c)"
  shows "\<exists>c' ev. Purge ks c = Inr c'
           \<and> c' = c\<lparr>items := Map.empty, evictList := [], size_acc := 0,
                    evictCalls := (if onEvict c then evictCalls c @ ev else evictCalls c)\<rparr>
           \<and> mset ev = mset (entries c) \<and> map fst ev = ks"
proof -
  have h: "\<forall>k e. items c k = Some e \<longrightarrow> heap c e \<noteq> None"
    using inv_items [OF inv] by auto
  from Purge_range_result [OF h d] obtain c1 where c1:
    "Purge_range ks c = Inr c1"
    "c1 = c\<lparr>items := (\<lambda>k. if k \<in> set ks then None else items c k),
             evictCalls := (if onEvict c
                            then evictCalls c @ concat (map (purge_call c) ks)
                            else evictCalls c)\<rparr>"
    by blast
  have e: "(\<lambda>k. if k \<in> set ks then None else items c k) = Map.empty"
    using s by (auto simp: fun_eq_iff)
  show ?thesis
    apply (rule exI [of _ "c1\<lparr>evictList := [], size_acc := 0\<rparr>"],
        rule exI [of _ "concat (map (purge_call c) ks)"])
    using c1(1) purge_calls_entries [OF inv d s]
    apply (simp add: Purge_def c1(2) e)
    done
qed


subsection \<open>Signed 64-bit arithmetic and Resize\<close>

lemma sint_sub_exact:
  fixes a b :: go_int
  assumes "- (2 ^ 63) \<le> sint a - sint b" and "sint a - sint b < 2 ^ 63"
  shows "sint (a - b) = sint a - sint b"
  using assms by (simp add: sint_word_diff signed_take_bit_int_eq_self)

lemma sint_add_exact:
  fixes a b :: go_int
  assumes "- (2 ^ 63) \<le> sint a + sint b" and "sint a + sint b < 2 ^ 63"
  shows "sint (a + b) = sint a + sint b"
  using assms by (simp add: sint_word_add signed_take_bit_int_eq_self)

lemma sint_of_nat_small: "n < 2 ^ 63 \<Longrightarrow> sint (word_of_nat n :: go_int) = int n"
  by (simp add: signed_of_nat signed_take_bit_int_eq_self)

lemma sint_bounds: "- (2 ^ 63) \<le> sint (w :: go_int)" "sint (w :: go_int) < 2 ^ 63"
  using sint_ge [of w] sint_lt [of w] by simp_all

lemma Resize_loop_result:
  assumes "lru_inv c"
  shows "\<exists>c' ev. Resize_loop n c = Inr c' \<and> lru_inv c'
      \<and> entries c = entries c' @ rev ev
      \<and> evictCalls c' = (if onEvict c then evictCalls c @ ev else evictCalls c)
      \<and> length ev = min n (length (evictList c))
      \<and> evictList c' = take (length (evictList c) - n) (evictList c)
      \<and> limit c' = limit c \<and> onEvict c' = onEvict c \<and> onAccount c' = onAccount c
      \<and> heap c' = heap c \<and> fresh c' = fresh c"
  using assms
proof (induction n arbitrary: c)
  case 0
  then show ?case by (intro exI [of _ c] exI [of _ "[]"]) simp
next
  case (Suc n)
  show ?case
  proof (cases "evictList c = []")
    case True
    from Suc.IH [OF Suc.prems] obtain c' ev where r:
      "Resize_loop n c = Inr c'" "lru_inv c'" "entries c = entries c' @ rev ev"
      "evictCalls c' = (if onEvict c then evictCalls c @ ev else evictCalls c)"
      "length ev = min n (length (evictList c))"
      "evictList c' = take (length (evictList c) - n) (evictList c)"
      "limit c' = limit c \<and> onEvict c' = onEvict c \<and> onAccount c' = onAccount c
        \<and> heap c' = heap c \<and> fresh c' = fresh c"
      by blast
    show ?thesis
      apply (rule exI [of _ c'], rule exI [of _ ev])
      using r True by (simp add: removeOldest_empty)
  next
    case False
    let ?d = "spec_drop_lru c"
    have ro: "removeOldest c = Inr ?d" and inv': "lru_inv ?d"
      using removeOldest_spec [OF Suc.prems False] by auto
    from entries_spec_drop_lru [OF Suc.prems False] obtain kv where
      kv0: "heap c (last (evictList c)) = Some kv" and
      kv: "entries c = entries ?d @ [(key kv, val kv)]"
          "evictCalls ?d = (if onEvict c then evictCalls c @ [(key kv, val kv)] else evictCalls c)"
      by (elim exE conjE)
    from Suc.IH [OF inv'] obtain c' ev where r:
      "Resize_loop n ?d = Inr c'" "lru_inv c'" "entries ?d = entries c' @ rev ev"
      "evictCalls c' = (if onEvict ?d then evictCalls ?d @ ev else evictCalls ?d)"
      "length ev = min n (length (evictList ?d))"
      "evictList c' = take (length (evictList ?d) - n) (evictList ?d)"
      "limit c' = limit ?d \<and> onEvict c' = onEvict ?d \<and> onAccount c' = onAccount ?d
        \<and> heap c' = heap ?d \<and> fresh c' = fresh ?d"
      by blast
    have len: "length (butlast (evictList c)) = length (evictList c) - 1"
      and pos: "0 < length (evictList c)"
      using False by simp_all
    have a: "Resize_loop (Suc n) c = Inr c'" using ro r(1) by simp
    have b: "entries c = entries c' @ rev ((key kv, val kv) # ev)"
      using kv(1) r(3) by simp
    have c: "evictCalls c' = (if onEvict c then evictCalls c @ ((key kv, val kv) # ev)
                              else evictCalls c)"
      using r(4) kv(2) by (simp add: spec_drop_lru_frame)
    have d: "length ((key kv, val kv) # ev) = min (Suc n) (length (evictList c))"
    proof -
      obtain m where m: "length (evictList c) = Suc m" using pos by (cases "evictList c") auto
      show ?thesis using r(5) by (simp add: spec_drop_lru_frame(6) m)
    qed
    have e: "evictList c' = take (length (evictList c) - Suc n) (evictList c)"
    proof -
      have "evictList c' = take (length (evictList c) - 1 - n) (butlast (evictList c))"
        using r(6) by (simp add: spec_drop_lru_frame(6) len)
      also have "\<dots> = take (length (evictList c) - Suc n) (evictList c)"
        using pos by (simp add: take_butlast)
      finally show ?thesis .
    qed
    have f: "limit c' = limit c \<and> onEvict c' = onEvict c \<and> onAccount c' = onAccount c
        \<and> heap c' = heap c \<and> fresh c' = fresh c"
      using r(7) by (simp add: spec_drop_lru_frame)
    from a r(2) b c d e f show ?thesis by blast
  qed
qed

lemma Resize_diff:
  fixes sz :: go_int
  assumes sz: "0 \<le>s sz" and len: "length (evictList c) < 2 ^ 63"
  shows "sint (if Len c - sz <s 0 then 0 else Len c - sz)
           = int (length (evictList c) - nat (sint sz))"
proof -
  have s0: "0 \<le> sint sz" using sz by (simp add: word_sle_eq)
  have l: "sint (Len c) = int (length (evictList c))"
    unfolding Len_def by (rule sint_of_nat_small [OF len])
  have d: "sint (Len c - sz) = int (length (evictList c)) - sint sz"
    using sint_sub_exact [of "Len c" sz] sint_bounds [of sz] s0 len by (simp add: l)
  show ?thesis using d s0 by (auto simp: word_sless_alt)
qed



lemma ex_cache_entries: "entries ex_cache = [(2, 5), (1, 4)]"
  by (simp add: entries_def entries_of_def entry_at_def ex_cache_def)


subsection \<open>Calls of the callback\<close>

lemma evicted_onceI:
  assumes d: "distinct (map fst before)" and m: "mset before = mset after + mset calls"
  shows "evicted_once before after calls"
proof -
  have "image_mset fst (mset before) = image_mset fst (mset after + mset calls)"
    by (simp only: m)
  then have "mset (map fst before) = mset (map fst after @ map fst calls)"
    by simp
  then have "distinct (map fst after @ map fst calls)"
    using d by (metis mset_eq_imp_distinct_iff)
  then show ?thesis using m by (auto simp: evicted_once_def)
qed

lemma unlinked_calls:
  assumes inv: "lru_inv c" and e: "e \<in> set (evictList c)" and h: "heap c e = Some kv"
  shows "mset (entries c) = mset (entries (unlinked e kv c)) + mset [(key kv, val kv)]"
    and "evictCalls (unlinked e kv c)
           = (if onEvict c then evictCalls c @ [(key kv, val kv)] else evictCalls c)"
proof -
  have d: "distinct (evictList c)" using inv by (simp add: lru_inv_def)
  from e obtain xs ys where l: "evictList c = xs @ e # ys" by (meson split_list)
  show "mset (entries c) = mset (entries (unlinked e kv c)) + mset [(key kv, val kv)]"
    using entries_unlinked [OF d l h] by simp
  show "evictCalls (unlinked e kv c)
           = (if onEvict c then evictCalls c @ [(key kv, val kv)] else evictCalls c)"
    by (simp add: unlinked_def)
qed

lemma unlinked_frame:
  "onAccount (unlinked e kv c) = onAccount c" "limit (unlinked e kv c) = limit c"
  by (simp_all add: unlinked_def)

lemma Remove_calls:
  assumes inv: "lru_inv c"
  shows "\<exists>b c' ev. Remove k c = Inr (b, c') \<and> lru_inv c'
           \<and> evictCalls c' = (if onEvict c then evictCalls c @ ev else evictCalls c)
           \<and> mset (entries c) = mset (entries c') + mset ev
           \<and> onAccount c' = onAccount c \<and> limit c' = limit c"
proof (cases "items c k")
  case None
  then have "Remove k c = Inr (False, c)" by (simp add: Remove_def)
  then show ?thesis using inv by (intro exI [of _ False] exI [of _ c] exI [of _ "[]"]) simp
next
  case (Some e)
  from Remove_present [OF inv Some] obtain kv where kv:
    "heap c e = Some kv" "e \<in> set (evictList c)"
    "Remove k c = Inr (True, unlinked e kv c)" "lru_inv (unlinked e kv c)"
    by blast
  show ?thesis
    using kv(3,4) unlinked_calls [OF inv kv(2,1)]
    by (intro exI [of _ True] exI [of _ "unlinked e kv c"] exI [of _ "[(key kv, val kv)]"])
      (simp add: unlinked_frame)
qed

lemma RemoveOldest_calls:
  assumes inv: "lru_inv c"
  shows "\<exists>r c' ev. RemoveOldest c = Inr (r, c') \<and> lru_inv c'
           \<and> evictCalls c' = (if onEvict c then evictCalls c @ ev else evictCalls c)
           \<and> mset (entries c) = mset (entries c') + mset ev
           \<and> (r = None \<longleftrightarrow> evictList c = [])
           \<and> onAccount c' = onAccount c \<and> limit c' = limit c"
proof (cases "evictList c = []")
  case True
  then have "RemoveOldest c = Inr (None, c)" by (simp add: RemoveOldest_def Back_def)
  then show ?thesis using inv True
    by (intro exI [of _ None] exI [of _ c] exI [of _ "[]"]) simp
next
  case False
  let ?e = "last (evictList c)"
  have e: "?e \<in> set (evictList c)" using False by simp
  from inv_heap [OF inv e] obtain kv where kv: "heap c ?e = Some kv" by auto
  have "heap (unlinked ?e kv c) ?e = Some kv" using kv by (simp add: unlinked_def)
  then have "RemoveOldest c = Inr (Some (key kv, val kv), unlinked ?e kv c)"
    using False by (simp add: RemoveOldest_def Back_def removeElement_unlinked [OF kv])
  then show ?thesis
    using False unlinked_calls [OF inv e kv] lru_inv_unlinked [OF inv e kv]
    by (intro exI [of _ "Some (key kv, val kv)"] exI [of _ "unlinked ?e kv c"]
        exI [of _ "[(key kv, val kv)]"]) (simp add: unlinked_frame)
qed

lemma Add_calls:
  assumes inv: "lru_inv c" and lim: "0 \<le>s limit c"
  shows "\<exists>c1 b c' ev. Add_place k v c = Inr c1 \<and> lru_inv c1 \<and> evictCalls c1 = evictCalls c
           \<and> Add k v c = Some (Inr (b, c')) \<and> lru_inv c'
           \<and> evictCalls c' = (if onEvict c then evictCalls c @ ev else evictCalls c)
           \<and> mset (entries c1) = mset (entries c') + mset ev
           \<and> \<not> limit c' <s size_acc c' \<and> limit c' = limit c
           \<and> onAccount c' = onAccount c"
proof -
  from Add_spec [OF inv lim, of k v] obtain c1 where c1:
    "Add_place k v c = Inr c1" "lru_inv c1" "limit c1 = limit c" "onEvict c1 = onEvict c"
    "evictCalls c1 = evictCalls c" "onAccount c1 = onAccount c"
    "Add k v c = Some (Inr (limit c1 <s size_acc c1, spec_evict c1))"
    by blast
  have oa: "onAccount (spec_evict c1) = onAccount c"
    using spec_evict_frame [of c1] c1(6) by simp
  from spec_evict_calls [OF c1(2)] obtain ev where ev:
    "entries c1 = entries (spec_evict c1) @ rev ev"
    "evictCalls (spec_evict c1) = (if onEvict c1 then evictCalls c1 @ ev else evictCalls c1)"
    by blast
  have m: "mset (entries c1) = mset (entries (spec_evict c1)) + mset ev"
    unfolding ev(1) by simp
  have inv': "lru_inv (spec_evict c1)" by (rule spec_evict_inv [OF c1(2)])
  have fr: "limit (spec_evict c1) = limit c" using spec_evict_frame [of c1] c1(3) by simp
  have ex: "\<not> limit (spec_evict c1) <s size_acc (spec_evict c1)"
  proof
    assume a: "limit (spec_evict c1) <s size_acc (spec_evict c1)"
    then have "evictList (spec_evict c1) = []" using spec_evict_exit [of c1] by simp
    then have "size_acc (spec_evict c1) = 0" using inv' by (simp add: inv_empty_size)
    with a lim fr show False by (simp add: word_sless_alt word_sle_eq)
  qed
  show ?thesis
    using c1(1,2,5,7) inv' ev(2) m ex fr oa
    by (intro exI [of _ c1] exI [of _ "limit c1 <s size_acc c1"] exI [of _ "spec_evict c1"]
        exI [of _ ev]) (simp add: c1(4))
qed

lemma Resize_calls:
  assumes inv: "lru_inv c"
  shows "\<exists>n c' ev. Resize sz c = Inr (n, c')
           \<and> evictCalls c' = (if onEvict c then evictCalls c @ ev else evictCalls c)
           \<and> mset (entries c) = mset (entries c') + mset ev"
proof -
  let ?n = "if Len c - sz <s 0 then 0 else Len c - sz"
  from Resize_loop_result [OF inv, of "nat (sint ?n)"] obtain c0 ev where r:
    "Resize_loop (nat (sint ?n)) c = Inr c0" "entries c = entries c0 @ rev ev"
    "evictCalls c0 = (if onEvict c then evictCalls c @ ev else evictCalls c)"
    by blast
  have res: "Resize sz c = Inr (?n, c0\<lparr>limit := sz\<rparr>)"
    using r(1) unfolding Resize_def Let_def by simp
  have en: "entries (c0\<lparr>limit := sz\<rparr>) = entries c0" by (simp add: entries_def)
  show ?thesis
    using res r(3)
    by (intro exI [of _ ?n] exI [of _ "c0\<lparr>limit := sz\<rparr>"] exI [of _ ev])
      (simp add: en r(2))
qed


subsection \<open>The weight bound\<close>

lemma sint_sum_exact:
  fixes ws :: "go_int list"
  assumes "\<forall>w \<in> set ws. 0 \<le>s w" and "sum_list (map sint ws) < 2 ^ 63"
  shows "sint (sum_list ws) = sum_list (map sint ws)"
  using assms
proof (induction ws)
  case Nil
  then show ?case by simp
next
  case (Cons w ws)
  have w0: "0 \<le> sint w" using Cons.prems(1) by (simp add: word_sle_eq)
  have nn: "0 \<le> sum_list (map sint ws)"
    using Cons.prems(1) by (intro sum_list_nonneg) (auto simp: word_sle_eq)
  have lt: "sum_list (map sint ws) < 2 ^ 63" using Cons.prems(2) w0 by simp
  have ih: "sint (sum_list ws) = sum_list (map sint ws)"
    using Cons.IH Cons.prems(1) lt by simp
  have "sint (w + sum_list ws) = sint w + sint (sum_list ws)"
    using Cons.prems(2) w0 nn by (intro sint_add_exact) (simp_all add: ih)
  then show ?case by (simp add: ih)
qed

lemma exact_shrink:
  assumes inv: "lru_inv c" and inv': "lru_inv c'" and oa: "onAccount c' = onAccount c"
    and m: "mset (entries c) = mset (entries c') + mset ev" and ex: "weights_exact c"
  shows "sint (size_acc c') \<le> sint (size_acc c)"
proof -
  let ?f = "\<lambda>(k, v). onAccount c k v"
  have mw: "mset (weights c) = mset (weights c') + mset (map ?f ev)"
  proof -
    have "image_mset ?f (mset (entries c)) = image_mset ?f (mset (entries c') + mset ev)"
      by (simp only: m)
    then show ?thesis by (simp add: weights_def oa)
  qed
  have nn: "\<forall>w \<in> set (weights c). 0 \<le> sint w"
    using ex by (simp add: weights_exact_def word_sle_eq)
  have sub: "set (weights c') \<subseteq> set (weights c)" and sube: "set (map ?f ev) \<subseteq> set (weights c)"
    using mw by (metis mset_subset_eqD mset_subset_eq_add_left set_mset_mset subsetI,
        metis mset_subset_eqD mset_subset_eq_add_right set_mset_mset subsetI)
  have "sum_mset (image_mset sint (mset (weights c)))
      = sum_mset (image_mset sint (mset (weights c')))
        + sum_mset (image_mset sint (mset (map ?f ev)))"
    by (simp only: mw image_mset_union sum_mset.union)
  then have s: "sum_list (map sint (weights c))
      = sum_list (map sint (weights c')) + sum_list (map sint (map ?f ev))"
    by (simp only: sum_mset_sum_list [symmetric] mset_map)
  have e0: "0 \<le> sum_list (map sint (map ?f ev))"
    using nn sube by (intro sum_list_nonneg) auto
  have ex': "(\<forall>w \<in> set (weights c'). 0 \<le>s w) \<and> sum_list (map sint (weights c')) < 2 ^ 63"
    using ex sub s e0 by (auto simp: weights_exact_def)
  have a: "sint (size_acc c) = sum_list (map sint (weights c))"
    using inv ex sint_sum_exact [of "weights c"]
    by (simp add: lru_inv_def total_weight_def weights_exact_def)
  have b: "sint (size_acc c') = sum_list (map sint (weights c'))"
    using inv' ex' sint_sum_exact [of "weights c'"]
    by (simp add: lru_inv_def total_weight_def)
  show ?thesis unfolding a b using s e0 by simp
qed

lemma ex_empty_inv: "lru_inv ex_empty"
  by (simp add: lru_inv_def ex_empty_def total_weight_def weights_def entries_def)


lemma ex_cache_exact: "weights_exact ex_cache"
  by (simp add: weights_exact_def weights_def ex_cache_entries)
    (simp add: ex_cache_def ex_account_def word_sle_eq)


lemma ex_empty_Add:
  "Add 1 11 ex_empty = Some (Inr (True, spec_evict (placed_new 1 11 ex_empty)))"
proof -
  have lim: "0 \<le>s limit ex_empty" by (simp add: ex_empty_def word_sle_eq)
  have p: "Add_place 1 11 ex_empty = Inr (placed_new 1 11 ex_empty)"
    by (simp add: Add_place_new ex_empty_def)
  have s: "limit (placed_new 1 11 ex_empty) <s size_acc (placed_new 1 11 ex_empty)"
    by (simp add: placed_new_def ex_empty_def ex_account_def word_sless_alt)
  from Add_spec [OF ex_empty_inv lim, of 1 11] p s show ?thesis by auto
qed

lemma ex_empty_evict:
  "evictList (spec_evict (placed_new 1 11 ex_empty)) = []"
  "evictCalls (spec_evict (placed_new 1 11 ex_empty)) = [(1, 11)]"
  by (simp_all add: spec_evict_go spec_evict_stop spec_drop_lru_def placed_new_def ex_empty_def
      ex_account_def word_sless_alt)


subsection \<open>The invariant holds initially and is kept by every operation\<close>

lemma New_inv:
  "NewLRUWithAccounting lim account evict = Inr c \<Longrightarrow> lru_inv c \<and> 0 \<le>s limit c"
  by (auto simp: NewLRUWithAccounting_def lru_inv_def total_weight_def weights_def entries_def
      word_sle_eq split: if_splits)

lemma New_rejects:
  "lim \<le>s 0 \<Longrightarrow> NewLRUWithAccounting lim account evict = Inl MustProvidePositiveSize"
  by (simp add: NewLRUWithAccounting_def)

lemma New_test_cache: "NewLRUWithAccounting 10 test_account True = Inr (test_cache 10)"
  by (simp add: NewLRUWithAccounting_def test_cache_def word_sle_eq)

lemma lru_inv_Add:
  "lru_inv c \<Longrightarrow> 0 \<le>s limit c \<Longrightarrow>
   \<exists>b c'. Add k v c = Some (Inr (b, c')) \<and> lru_inv c' \<and> limit c' = limit c"
  using Add_calls [of c k v] by blast

lemma lru_inv_Get: "lru_inv c \<Longrightarrow> lru_inv (snd (Get k c))"
proof (cases "items c k")
  case None
  assume "lru_inv c"
  with None show ?thesis by (simp add: Get_def)
next
  case (Some e)
  assume inv: "lru_inv c"
  from inv_items [OF inv Some] obtain kv where kv: "e \<in> set (evictList c)" "heap c e = Some kv"
    by auto
  show ?thesis
    using Get_present [OF Some kv] lru_inv_promoted [OF inv kv(1)] by simp
qed

lemma lru_inv_Remove:
  "lru_inv c \<Longrightarrow> \<exists>b c'. Remove k c = Inr (b, c') \<and> lru_inv c' \<and> limit c' = limit c"
  using Remove_calls [of c k] by blast

lemma lru_inv_RemoveOldest:
  "lru_inv c \<Longrightarrow> \<exists>r c'. RemoveOldest c = Inr (r, c') \<and> lru_inv c' \<and> limit c' = limit c"
  using RemoveOldest_calls [of c] by blast

lemma lru_inv_limit: "lru_inv c \<Longrightarrow> lru_inv (c\<lparr>limit := sz\<rparr>)"
  by (simp add: lru_inv_def total_weight_def weights_def entries_def)

lemma lru_inv_Resize:
  assumes "lru_inv c"
  shows "\<exists>n c'. Resize sz c = Inr (n, c') \<and> lru_inv c' \<and> limit c' = sz"
proof -
  let ?n = "if Len c - sz <s 0 then 0 else Len c - sz"
  from Resize_loop_result [OF assms, of "nat (sint ?n)"] obtain c0 where r:
    "Resize_loop (nat (sint ?n)) c = Inr c0" "lru_inv c0"
    by blast
  have "Resize sz c = Inr (?n, c0\<lparr>limit := sz\<rparr>)"
    using r(1) unfolding Resize_def Let_def by simp
  then show ?thesis using lru_inv_limit [OF r(2), of sz] by auto
qed

lemma lru_inv_Purge:
  assumes "lru_inv c" and "distinct ks" and "set ks = dom (items c)"
  shows "\<exists>c'. Purge ks c = Inr c' \<and> lru_inv c' \<and> limit c' = limit c"
proof -
  from Purge_result [OF assms] obtain c' ev where r:
    "Purge ks c = Inr c'"
    "c' = c\<lparr>items := Map.empty, evictList := [], size_acc := 0,
             evictCalls := (if onEvict c then evictCalls c @ ev else evictCalls c)\<rparr>"
    by blast
  have "lru_inv c'"
    by (simp add: r(2) lru_inv_def total_weight_def weights_def entries_def)
  with r show ?thesis by auto
qed

subsection \<open>The tests of the repository, run on the model\<close>

text \<open>
  \<^verbatim>\<open>TestLRUWithAccounting\<close>: after ten insertions of weight 2 into a cache of limit 10 the size
  is 10, the callback has been called 5 times and the keys "5" to "9" are left; removing "5"
  and "6" succeeds once each; after \<^verbatim>\<open>Get("7")\<close> the keys are "8", "9", "7".
  \<^verbatim>\<open>TestLRUWithAccounting_update\<close>: with limit 20 the ten insertions evict nothing and the ten
  updates cause 14 evictions.
\<close>

lemma evictLoop_go:
  "limit c <s size_acc c \<Longrightarrow>
   evictLoop c = (case removeOldest c of Inl err \<Rightarrow> Some (Inl err) | Inr c' \<Rightarrow> evictLoop c')"
  by (subst evictLoop.simps) simp

lemma evictLoop_stop: "\<not> limit c <s size_acc c \<Longrightarrow> evictLoop c = Some (Inr c)"
  by (subst evictLoop.simps) simp

lemmas run_simps = Add_def Add_place_def evictIfNeeded_def evictLoop_go evictLoop_stop
  removeOldest_def removeElement_def Back_def list_Remove_def MoveToFront_def PushFront_def
  test_account_def test_cache_def word_sless_alt Let_def

lemma test_LRUWithAccounting:
  "map_option (\<lambda>c. (AccountingSize c, length (evictCalls c), map fst (entries c)))
     (Add_all [(''0'', ''0''), (''1'', ''1''), (''2'', ''2''), (''3'', ''3''), (''4'', ''4''),
               (''5'', ''5''), (''6'', ''6''), (''7'', ''7''), (''8'', ''8''), (''9'', ''9'')]
        (test_cache 10))
   = Some (10, 5, [''9'', ''8'', ''7'', ''6'', ''5''])"
  by (simp add: run_simps AccountingSize_def entries_def entries_of_def entry_at_def)



lemma test_LRUWithAccounting_update:
  "map_option (\<lambda>c. length (evictCalls c)) (Add_all test_adds (test_cache 20)) = Some 0"
  "map_option (\<lambda>c. length (evictCalls c)) (Add_all (test_adds @ test_updates) (test_cache 20))
     = Some 14"
  by (simp_all add: run_simps test_adds_def test_updates_def)

lemma test_LRUWithAccounting_remove:
  "(case Add_all test_adds (test_cache 10) of
      None \<Rightarrow> None
    | Some c \<Rightarrow>
        (case Remove ''5'' c of
           Inl e \<Rightarrow> None
         | Inr (p1, c1) \<Rightarrow>
             (case Remove ''5'' c1 of
                Inl e \<Rightarrow> None
              | Inr (p2, c2) \<Rightarrow>
                  (case Remove ''6'' c2 of
                     Inl e \<Rightarrow> None
                   | Inr (p3, c3) \<Rightarrow>
                       Some (p1, p2, p3, fst (Get ''6'' c3), Keys (snd (Get ''7'' c3)))))))
   = Some (True, False, True, None, Inr [Some ''8'', Some ''9'', Some ''7''])"
  by (simp add: run_simps test_adds_def Remove_def Get_def Keys_def)



subsection \<open>A negative limit\<close>









subsection \<open>What Add returns, whatever the limit\<close>

text \<open>
  Whenever the eviction loop of the code returns, it returns what the loop of the specification
  computes; no assumption on the limit is needed. So whenever \<^verbatim>\<open>Add\<close> returns, it returns the
  flag and the state the specification describes.
\<close>

lemma evictLoop_returns_spec:
  "lru_inv c \<Longrightarrow> evictLoop c = Some r \<Longrightarrow> r = Inr (spec_evict c)"
proof (induction c rule: spec_evict.induct)
  case (1 c)
  show ?case
  proof (cases "limit c <s size_acc c")
    case True
    have ne: "evictList c \<noteq> []"
    proof
      assume "evictList c = []"
      then have "evictLoop c = None" using True by (rule evictLoop_diverges)
      with "1.prems"(2) show False by simp
    qed
    have ro: "removeOldest c = Inr (spec_drop_lru c)" and inv': "lru_inv (spec_drop_lru c)"
      using removeOldest_spec [OF "1.prems"(1) ne] by auto
    have "evictLoop c = evictLoop (spec_drop_lru c)"
      by (subst evictLoop_go [OF True]) (simp only: ro sum.case)
    then have "evictLoop (spec_drop_lru c) = Some r" using "1.prems"(2) by simp
    then have "r = Inr (spec_evict (spec_drop_lru c))"
      using "1.IH" True ne inv' by simp
    then show ?thesis using True ne by (simp add: spec_evict_go)
  next
    case False
    then have "evictLoop c = Some (Inr c)" by (rule evictLoop_stop)
    then show ?thesis using "1.prems"(2) False by (simp add: spec_evict_stop)
  qed
qed

lemma Add_returns:
  assumes inv: "lru_inv c" and r: "Add k v c = Some r"
  shows "\<exists>c1. Add_place k v c = Inr c1 \<and> r = Inr (limit c1 <s size_acc c1, spec_evict c1)"
proof -
  from Add_place_inv [OF inv, of k v] obtain c1 where
    c1: "Add_place k v c = Inr c1" "lru_inv c1"
    by blast
  have e: "evictIfNeeded c1 = Some r" using r c1(1) by (simp add: Add_def)
  then obtain x where x: "evictLoop c1 = Some x"
    by (cases "evictLoop c1") (auto simp: evictIfNeeded_def)
  from evictLoop_returns_spec [OF c1(2) x] have "x = Inr (spec_evict c1)" .
  then have "r = Inr (limit c1 <s size_acc c1, spec_evict c1)"
    using e x by (simp add: evictIfNeeded_def)
  with c1(1) show ?thesis by blast
qed

text \<open>
  The entries after the placement step: the pair added, in front of the other keys' entries in
  their order.
\<close>

lemma entries_Add_place:
  assumes inv: "lru_inv c" and p: "Add_place k v c = Inr c1"
  shows "entries c1 = (k, v) # filter (\<lambda>x. fst x \<noteq> k) (entries c)"
  using Add_place_cases [OF inv, of k v]
proof (elim disjE conjE exE)
  assume n: "items c k = None" and a: "Add_place k v c = Inr (placed_new k v c)"
  have "k \<notin> dom (items c)" using n by auto
  then have "k \<notin> fst ` set (entries c)"
    using inv_dom_items [OF inv] by simp
  then have "filter (\<lambda>x. fst x \<noteq> k) (entries c) = entries c"
    by (auto simp: filter_id_conv)
  then show ?thesis
    using a p by (simp add: entries_placed_new [OF inv_fresh [OF inv]])
next
  fix e kv
  assume i: "items c k = Some e" and h: "heap c e = Some kv" and kk: "key kv = k"
    and e: "e \<in> set (evictList c)" and a: "Add_place k v c = Inr (placed_upd e kv v c)"
  have d0: "distinct (evictList c)" using inv by (simp add: lru_inv_def)
  from e obtain xs ys where l: "evictList c = xs @ e # ys" by (meson split_list)
  have en: "entries c = entries_of (heap c) xs @ (k, val kv) # entries_of (heap c) ys"
    using l h kk by (simp add: entries_def entries_of_append entries_of_Cons entry_at_def)
  have nk: "k \<notin> fst ` set (entries_of (heap c) xs)" "k \<notin> fst ` set (entries_of (heap c) ys)"
    using inv_distinct_keys [OF inv] unfolding en by auto
  have f: "filter (\<lambda>x. fst x \<noteq> k) (entries_of (heap c) xs) = entries_of (heap c) xs"
          "filter (\<lambda>x. fst x \<noteq> k) (entries_of (heap c) ys) = entries_of (heap c) ys"
    using nk by (auto simp: filter_id_conv)
  show ?thesis
    using a p entries_placed_upd [OF d0 l h, of v] kk
    by (simp add: en f)
qed

text \<open>
  With negative weights an \<^verbatim>\<open>Add\<close> returns although the limit is negative.
\<close>

lemma ex_overdrawn_inv: "lru_inv ex_overdrawn"
  by (simp add: lru_inv_def ex_overdrawn_def total_weight_def weights_def entries_def)

lemma ex_overdrawn_Add:
  "Add 1 5 ex_overdrawn = Some (Inr (False, placed_new 1 5 ex_overdrawn))"
proof -
  have p: "Add_place 1 5 ex_overdrawn = Inr (placed_new 1 5 ex_overdrawn)"
    by (simp add: Add_place_new ex_overdrawn_def)
  have s: "\<not> limit (placed_new 1 5 ex_overdrawn) <s size_acc (placed_new 1 5 ex_overdrawn)"
    by (simp add: placed_new_def ex_overdrawn_def ex_credit_def word_sless_alt)
  have l: "evictLoop (placed_new 1 5 ex_overdrawn) = Some (Inr (placed_new 1 5 ex_overdrawn))"
    by (rule evictLoop_stop [OF s])
  have e: "evictIfNeeded (placed_new 1 5 ex_overdrawn)
             = Some (Inr (False, placed_new 1 5 ex_overdrawn))"
    using s l by (simp add: evictIfNeeded_def)
  have "Add 1 5 ex_overdrawn = evictIfNeeded (placed_new 1 5 ex_overdrawn)"
    by (simp only: Add_def p sum.case)
  then show ?thesis by (simp only: e)
qed


section \<open>The claims\<close>

text \<open>
  C1 (as amended): on a well-formed cache whose limit is not negative, the size is at most the
  limit after every \<^verbatim>\<open>Add\<close>, with no exception for an oversized entry: the eviction loop
  removes it as well, so an entry left alone in the cache never weighs more than the limit. The
  size is at most the limit after every \<^verbatim>\<open>Purge\<close>; and after \<^verbatim>\<open>Remove\<close> and
  \<^verbatim>\<open>RemoveOldest\<close> when it was so before and the weights are not negative and do not
  overflow. (\<^verbatim>\<open>Resize\<close> is not covered.)
\<close>

theorem C1_weight_bound:
  assumes "lru_inv c" and "0 \<le>s limit c"
  shows "(\<exists>b c'. Add k v c = Some (Inr (b, c')) \<and> size_acc c' \<le>s limit c'
            \<and> total_weight c' \<le>s limit c'
            \<and> (\<forall>k' v'. entries c' = [(k', v')] \<longrightarrow> onAccount c k' v' \<le>s limit c'))
       \<and> (distinct ks \<and> set ks = dom (items c) \<longrightarrow>
            (\<exists>c'. Purge ks c = Inr c' \<and> size_acc c' \<le>s limit c'))
       \<and> (size_acc c \<le>s limit c \<and> weights_exact c \<longrightarrow>
            (\<exists>b c'. Remove k c = Inr (b, c') \<and> size_acc c' \<le>s limit c')
            \<and> (\<exists>r c'. RemoveOldest c = Inr (r, c') \<and> size_acc c' \<le>s limit c'))"
proof (intro conjI impI)
  from Add_calls [OF assms, of k v] obtain c1 b c' where r:
    "Add k v c = Some (Inr (b, c'))" "lru_inv c'" "\<not> limit c' <s size_acc c'"
    "onAccount c' = onAccount c"
    by blast
  have le: "size_acc c' \<le>s limit c'" using r(3) by (simp add: word_sless_alt word_sle_eq)
  have tw: "total_weight c' = size_acc c'" using r(2) by (simp add: lru_inv_def)
  have one: "\<forall>k' v'. entries c' = [(k', v')] \<longrightarrow> onAccount c k' v' \<le>s limit c'"
    using le tw by (auto simp: total_weight_def weights_def r(4))
  show "\<exists>b c'. Add k v c = Some (Inr (b, c')) \<and> size_acc c' \<le>s limit c'
            \<and> total_weight c' \<le>s limit c'
            \<and> (\<forall>k' v'. entries c' = [(k', v')] \<longrightarrow> onAccount c k' v' \<le>s limit c')"
    using r(1) le tw one by auto
next
  assume ks: "distinct ks \<and> set ks = dom (items c)"
  from Purge_result [OF assms(1), of ks] ks obtain c' ev where r:
    "Purge ks c = Inr c'"
    "c' = c\<lparr>items := Map.empty, evictList := [], size_acc := 0,
             evictCalls := (if onEvict c then evictCalls c @ ev else evictCalls c)\<rparr>"
    by blast
  have "size_acc c' \<le>s limit c'" using assms(2) by (simp add: r(2))
  with r(1) show "\<exists>c'. Purge ks c = Inr c' \<and> size_acc c' \<le>s limit c'" by blast
next
  assume a: "size_acc c \<le>s limit c \<and> weights_exact c"
  from Remove_calls [OF assms(1), of k] obtain b c' ev where r:
    "Remove k c = Inr (b, c')" "lru_inv c'" "mset (entries c) = mset (entries c') + mset ev"
    "onAccount c' = onAccount c" "limit c' = limit c"
    by blast
  have "sint (size_acc c') \<le> sint (size_acc c)"
    using exact_shrink [OF assms(1) r(2) r(4) r(3)] a by simp
  then have "size_acc c' \<le>s limit c'" using a by (simp add: word_sle_eq r(5))
  with r(1) show "\<exists>b c'. Remove k c = Inr (b, c') \<and> size_acc c' \<le>s limit c'" by blast
next
  assume a: "size_acc c \<le>s limit c \<and> weights_exact c"
  from RemoveOldest_calls [OF assms(1)] obtain r c' ev where r:
    "RemoveOldest c = Inr (r, c')" "lru_inv c'" "mset (entries c) = mset (entries c') + mset ev"
    "onAccount c' = onAccount c" "limit c' = limit c"
    by blast
  have "sint (size_acc c') \<le> sint (size_acc c)"
    using exact_shrink [OF assms(1) r(2) r(4) r(3)] a by simp
  then have "size_acc c' \<le>s limit c'" using a by (simp add: word_sle_eq r(5))
  with r(1) show "\<exists>r c'. RemoveOldest c = Inr (r, c') \<and> size_acc c' \<le>s limit c'" by blast
qed


theorem C1_weight_bound_witness:
  "(\<exists>b c'. Add 3 7 ex_cache = Some (Inr (b, c')) \<and> size_acc c' \<le>s limit c'
       \<and> entries c' = [(3, 7)] \<and> ex_account 3 7 \<le>s limit c')
   \<and> (\<exists>c'. Purge [2, 1] ex_cache = Inr c' \<and> size_acc c' \<le>s limit c')
   \<and> (\<exists>b c'. Remove 1 ex_cache = Inr (b, c') \<and> size_acc c' \<le>s limit c')
   \<and> (\<exists>r c'. RemoveOldest ex_cache = Inr (r, c') \<and> size_acc c' \<le>s limit c')"
proof -
  have lim: "0 \<le>s limit ex_cache" and sz: "size_acc ex_cache \<le>s limit ex_cache"
    and oa: "onAccount ex_cache = ex_account"
    by (simp_all add: ex_cache_def word_sle_eq)
  have ks: "distinct [2, 1 :: nat] \<and> set [2, 1] = dom (items ex_cache)"
    by (auto simp: ex_cache_def)
  from C1_weight_bound [OF ex_cache_inv lim, where k = 3 and v = 7 and ks = "[2, 1]"]
  obtain b c' where a: "Add 3 7 ex_cache = Some (Inr (b, c'))" "size_acc c' \<le>s limit c'"
    "\<forall>k' v'. entries c' = [(k', v')] \<longrightarrow> onAccount ex_cache k' v' \<le>s limit c'"
    and p: "\<exists>c'. Purge [2, 1] ex_cache = Inr c' \<and> size_acc c' \<le>s limit c'"
    using ks by blast
  have e: "entries c' = [(3, 7)]" using a(1) ex_cache_Add ex_evict_entries by simp
  then have "ex_account 3 7 \<le>s limit c'" using a(3) oa by simp
  with a(1,2) e have first: "\<exists>b c'. Add 3 7 ex_cache = Some (Inr (b, c'))
       \<and> size_acc c' \<le>s limit c' \<and> entries c' = [(3, 7)] \<and> ex_account 3 7 \<le>s limit c'"
    by blast
  from C1_weight_bound [OF ex_cache_inv lim, where k = 1 and v = 7 and ks = "[2, 1]"]
    sz ex_cache_exact
  have rest: "(\<exists>b c'. Remove 1 ex_cache = Inr (b, c') \<and> size_acc c' \<le>s limit c')
   \<and> (\<exists>r c'. RemoveOldest ex_cache = Inr (r, c') \<and> size_acc c' \<le>s limit c')"
    by blast
  from first p rest show ?thesis by blast
qed

text \<open>
  The claim as stated fails. An entry of weight 11 added to the empty cache of limit 10 is
  evicted by that very call (the call returns true, the cache is empty, the callback has been
  called for the entry): the cache does not keep the oversized entry. And
  \<^verbatim>\<open>Resize(2)\<close> on the cache of the example, which holds two entries of total weight 9,
  removes nothing and leaves the size 9 above the new limit 2.
\<close>

theorem C1_weight_bound_counterexample:
  "limit ex_empty <s ex_account 1 11
   \<and> map_option (map_sum id (map_prod id evictList)) (Add 1 11 ex_empty) = Some (Inr (True, []))
   \<and> map_option (map_sum id (evictCalls \<circ> snd)) (Add 1 11 ex_empty) = Some (Inr [(1, 11)])
   \<and> map_sum id (limit \<circ> snd) (Resize 2 ex_cache) = Inr 2
   \<and> map_sum id (size_acc \<circ> snd) (Resize 2 ex_cache) = Inr 9
   \<and> map_sum id (length \<circ> evictList \<circ> snd) (Resize 2 ex_cache) = Inr 2"
proof -
  have a: "limit ex_empty <s ex_account 1 11"
    by (simp add: ex_empty_def ex_account_def word_sless_alt)
  have b: "map_option (map_sum id (map_prod id evictList)) (Add 1 11 ex_empty)
             = Some (Inr (True, []))"
    and c: "map_option (map_sum id (evictCalls \<circ> snd)) (Add 1 11 ex_empty)
             = Some (Inr [(1, 11)])"
    unfolding ex_empty_Add by (simp_all only: ex_empty_evict option.map map_sum.simps
        map_prod_simp id_apply comp_apply snd_conv)
  have d: "map_sum id (limit \<circ> snd) (Resize 2 ex_cache) = Inr 2"
    and e: "map_sum id (size_acc \<circ> snd) (Resize 2 ex_cache) = Inr 9"
    and f: "map_sum id (length \<circ> evictList \<circ> snd) (Resize 2 ex_cache) = Inr 2"
    by (simp_all add: Resize_def Len_def ex_cache_def word_sless_alt)
  from a b c d e f show ?thesis by blast
qed







text \<open>
  C4 (as amended): for a new limit that is not negative, \<^verbatim>\<open>Resize\<close> on a well-formed cache
  stores the new limit and removes the oldest entries until at most that many entries remain,
  whatever they weigh; it returns the number of entries it removed, which is
  \<open>max (Len - newLimit) 0\<close>. (The length bound says that the number of entries fits Go's
  \<^verbatim>\<open>int\<close>.)
\<close>

theorem C4_resize:
  assumes "lru_inv c" and "0 \<le>s sz" and "length (evictList c) < 2 ^ 63"
  shows "\<exists>n c' ev. Resize sz c = Inr (n, c') \<and> limit c' = sz
      \<and> entries c = entries c' @ rev ev
      \<and> evictCalls c' = (if onEvict c then evictCalls c @ ev else evictCalls c)
      \<and> evictList c' = take (nat (sint sz)) (evictList c)
      \<and> Len c' \<le>s sz
      \<and> sint n = int (length ev)
      \<and> sint n = max (sint (Len c) - sint sz) 0
      \<and> length ev = length (evictList c) - length (evictList c')"
proof -
  let ?n = "if Len c - sz <s 0 then 0 else Len c - sz"
  let ?len = "length (evictList c)"
  let ?s = "nat (sint sz)"
  have s0: "0 \<le> sint sz" using assms(2) by (simp add: word_sle_eq)
  have n: "sint ?n = int (?len - ?s)" by (rule Resize_diff [OF assms(2,3)])
  then have k: "nat (sint ?n) = ?len - ?s" by simp
  from Resize_loop_result [OF assms(1), of "?len - ?s"] obtain c0 ev where r:
    "Resize_loop (?len - ?s) c = Inr c0" "entries c = entries c0 @ rev ev"
    "evictCalls c0 = (if onEvict c then evictCalls c @ ev else evictCalls c)"
    "length ev = min (?len - ?s) ?len"
    "evictList c0 = take (?len - (?len - ?s)) (evictList c)"
    by blast
  have res: "Resize sz c = Inr (?n, c0\<lparr>limit := sz\<rparr>)"
    using r(1) unfolding Resize_def Let_def k by simp
  have tk: "evictList c0 = take ?s (evictList c)"
  proof (cases "?s \<le> ?len")
    case True
    then show ?thesis using r(5) by simp
  next
    case False
    then show ?thesis using r(5) by simp
  qed
  have lev: "length ev = ?len - ?s" using r(4) by simp
  have l0: "length (evictList c0) = min ?len ?s" using tk by simp
  have lc: "sint (Len c) = int ?len"
    unfolding Len_def by (rule sint_of_nat_small [OF assms(3)])
  have "sint (Len (c0\<lparr>limit := sz\<rparr>)) = int (min ?len ?s)"
    unfolding Len_def using sint_of_nat_small [of "min ?len ?s"] assms(3) l0 by simp
  then have le: "Len (c0\<lparr>limit := sz\<rparr>) \<le>s sz"
    using s0 by (simp add: word_sle_eq)
  have mx: "sint ?n = max (sint (Len c) - sint sz) 0"
    unfolding n lc using s0 by (simp add: max_def)
  have en: "entries (c0\<lparr>limit := sz\<rparr>) = entries c0" by (simp add: entries_def)
  show ?thesis
    apply (rule exI [of _ ?n], rule exI [of _ "c0\<lparr>limit := sz\<rparr>"], rule exI [of _ ev])
    apply (intro conjI)
            apply (rule res)
           apply simp
          apply (simp only: en r(2))
         apply (simp add: r(3))
        apply (simp add: tk)
       apply (rule le)
      apply (simp only: n lev)
     apply (rule mx)
    apply (simp add: lev l0)
    done
qed

theorem C4_resize_witness:
  "\<exists>c'. Resize 1 ex_cache = Inr (1, c') \<and> limit c' = 1 \<and> evictList c' = [1]
      \<and> entries c' = [(2, 5)] \<and> evictCalls c' = [(1, 4)]"
proof -
  have sz: "0 \<le>s (1 :: go_int)" by (simp add: word_sle_eq)
  have len: "length (evictList ex_cache) < 2 ^ 63" by (simp add: ex_cache_def)
  from C4_resize [OF ex_cache_inv sz len] obtain n c' ev where r:
    "Resize 1 ex_cache = Inr (n, c')" "limit c' = 1"
    "entries ex_cache = entries c' @ rev ev"
    "evictCalls c' = (if onEvict ex_cache then evictCalls ex_cache @ ev else evictCalls ex_cache)"
    "evictList c' = take (nat (sint (1 :: go_int))) (evictList ex_cache)"
    "sint n = int (length ev)"
    "length ev = length (evictList ex_cache) - length (evictList c')"
    by blast
  have l: "evictList c' = [1]" using r(5) by (simp add: ex_cache_def)
  have le: "length ev = 1" using r(7) l by (simp add: ex_cache_def)
  then obtain x where ev: "ev = [x]" by (cases ev) auto
  have "entries c' = [(2, 5)] \<and> x = (1, 4)"
    using r(3) unfolding ex_cache_entries ev by (cases "entries c'") auto
  moreover have "n = 1"
  proof -
    have "sint n = 1" using r(6) le by simp
    then have "word_of_int (sint n) = (word_of_int 1 :: go_int)" by simp
    then show ?thesis by simp
  qed
  ultimately show ?thesis using r(1,2,4) l ev by (simp add: ex_cache_def)
qed


text \<open>
  The claim as stated fails for a negative argument: the cache of the example holds two
  entries, \<^verbatim>\<open>Resize(-1)\<close> removes both and returns 3.
\<close>

theorem C4_resize_counterexample:
  "map_sum id fst (Resize (- 1) ex_cache) = Inr 3
   \<and> map_sum id (length \<circ> evictList \<circ> snd) (Resize (- 1) ex_cache) = Inr 0
   \<and> length (evictList ex_cache) = 2"
  by (simp add: Resize_def Len_def ex_cache_def word_sless_alt numeral_3_eq_3
      removeOldest_def Back_def removeElement_def list_Remove_def)

text \<open>
  C5: when \<^verbatim>\<open>Add\<close> is called with a key that is present, the weight of the old value is
  subtracted from the size, the value is replaced in the entry the element points to, the
  weight of the new value is added, and the element is moved to the front. Before the eviction
  loop runs the size has changed by exactly the new weight minus the old one (in 64-bit
  arithmetic), and the number of entries and the index are unchanged.
\<close>

theorem C5_update_existing_key:
  assumes "lru_inv c" and "items c k = Some e"
  shows "\<exists>kv c1. heap c e = Some kv \<and> key kv = k
      \<and> Add_place k v c = Inr c1 \<and> Add k v c = evictIfNeeded c1
      \<and> size_acc c1 = size_acc c - onAccount c k (val kv) + onAccount c k v
      \<and> size_acc c1 - size_acc c = onAccount c k v - onAccount c k (val kv)
      \<and> heap c1 e = Some \<lparr>key = k, val = v\<rparr>
      \<and> items c1 = items c
      \<and> evictList c1 = e # remove1 e (evictList c)
      \<and> length (evictList c1) = length (evictList c)
      \<and> Len c1 = Len c
      \<and> hd (entries c1) = (k, v)
      \<and> evictCalls c1 = evictCalls c \<and> limit c1 = limit c"
proof -
  from inv_items [OF assms] obtain kv where
    kv: "e \<in> set (evictList c)" "heap c e = Some kv" "key kv = k"
    by auto
  have ap: "Add_place k v c = Inr (placed_upd e kv v c)"
    by (rule Add_place_upd [OF assms(2) kv(1,2)])
  have d0: "distinct (evictList c)" using assms(1) by (simp add: lru_inv_def)
  from kv(1) obtain xs ys where l: "evictList c = xs @ e # ys" by (meson split_list)
  have hd: "hd (entries (placed_upd e kv v c)) = (k, v)"
    by (simp add: entries_placed_upd [OF d0 l kv(2)] kv(3))
  have len: "length (evictList (placed_upd e kv v c)) = length (evictList c)"
    using l d0 by (simp add: placed_upd_def remove1_split)
  have rec: "kv\<lparr>val := v\<rparr> = \<lparr>key = k, val = v\<rparr>"
    using kv(3) by (cases kv) simp
  show ?thesis
    apply (rule exI [of _ kv], rule exI [of _ "placed_upd e kv v c"])
    using kv(2,3) ap hd len rec
    apply (simp add: Add_def Len_def)
    apply (simp add: placed_upd_def)
    done
qed

theorem C5_update_existing_key_witness:
  "\<exists>c1. Add_place 1 6 ex_cache = Inr c1 \<and> Add 1 6 ex_cache = evictIfNeeded c1
     \<and> size_acc c1 = 11 \<and> size_acc c1 - size_acc ex_cache = 6 - 4
     \<and> evictList c1 = [0, 1] \<and> Len c1 = Len ex_cache \<and> hd (entries c1) = (1, 6)"
proof -
  have i: "items ex_cache 1 = Some 0" by (simp add: ex_cache_def)
  from C5_update_existing_key [OF ex_cache_inv i, of 6]
  show ?thesis
    by (auto simp: ex_cache_def ex_account_def)
qed

text \<open>
  C6: with a callback set, on a well-formed cache, every entry that leaves the cache by
  \<^verbatim>\<open>Remove\<close>, by \<^verbatim>\<open>RemoveOldest\<close>, by the eviction loop of \<^verbatim>\<open>Add\<close>, by \<^verbatim>\<open>Resize\<close> or
  by \<^verbatim>\<open>Purge\<close> causes exactly one call of the callback, with the entry's key and value, and
  no call is made for a key that stays. The insert or update step of \<^verbatim>\<open>Add\<close> calls nothing
  and removes nothing: it leaves the pair added in front of the other keys' entries (an update
  replaces the value in place). The entries that leave in \<^verbatim>\<open>Add\<close> are those the eviction
  loop removes from there, and this holds whenever \<^verbatim>\<open>Add\<close> returns, whatever the limit;
  \<^verbatim>\<open>Add\<close> does return when the limit is not negative.
\<close>

theorem C6_evict_callback:
  assumes "lru_inv c" and "onEvict c"
  shows "(\<exists>b c' ev. Remove k c = Inr (b, c') \<and> evictCalls c' = evictCalls c @ ev
            \<and> evicted_once (entries c) (entries c') ev)
       \<and> (\<exists>r c' ev. RemoveOldest c = Inr (r, c') \<and> evictCalls c' = evictCalls c @ ev
            \<and> evicted_once (entries c) (entries c') ev)
       \<and> (\<exists>c1. Add_place k v c = Inr c1 \<and> evictCalls c1 = evictCalls c
            \<and> entries c1 = (k, v) # filter (\<lambda>x. fst x \<noteq> k) (entries c)
            \<and> (0 \<le>s limit c \<longrightarrow> (\<exists>b c'. Add k v c = Some (Inr (b, c'))))
            \<and> (\<forall>r. Add k v c = Some r \<longrightarrow>
                  (\<exists>b c' ev. r = Inr (b, c') \<and> evictCalls c' = evictCalls c @ ev
                     \<and> evicted_once (entries c1) (entries c') ev)))
       \<and> (\<exists>n c' ev. Resize sz c = Inr (n, c') \<and> evictCalls c' = evictCalls c @ ev
            \<and> evicted_once (entries c) (entries c') ev)
       \<and> (distinct ks \<and> set ks = dom (items c) \<longrightarrow>
            (\<exists>c' ev. Purge ks c = Inr c' \<and> evictCalls c' = evictCalls c @ ev
               \<and> entries c' = [] \<and> evicted_once (entries c) (entries c') ev))"
proof (intro conjI impI)
  note dk = inv_distinct_keys [OF assms(1)]
  show "\<exists>b c' ev. Remove k c = Inr (b, c') \<and> evictCalls c' = evictCalls c @ ev
            \<and> evicted_once (entries c) (entries c') ev"
    using Remove_calls [OF assms(1), of k] assms(2) evicted_onceI [OF dk] by fastforce
  show "\<exists>r c' ev. RemoveOldest c = Inr (r, c') \<and> evictCalls c' = evictCalls c @ ev
            \<and> evicted_once (entries c) (entries c') ev"
    using RemoveOldest_calls [OF assms(1)] assms(2) evicted_onceI [OF dk] by fastforce
  show "\<exists>n c' ev. Resize sz c = Inr (n, c') \<and> evictCalls c' = evictCalls c @ ev
            \<and> evicted_once (entries c) (entries c') ev"
    using Resize_calls [OF assms(1), of sz] assms(2) evicted_onceI [OF dk] by fastforce
next
  from Add_place_inv [OF assms(1), of k v] obtain c1 where
    c1: "Add_place k v c = Inr c1" "lru_inv c1" "onEvict c1 = onEvict c"
        "evictCalls c1 = evictCalls c"
    by blast
  note en = entries_Add_place [OF assms(1) c1(1)]
  from spec_evict_calls [OF c1(2)] obtain ev where
    ev: "entries c1 = entries (spec_evict c1) @ rev ev"
        "evictCalls (spec_evict c1) = (if onEvict c1 then evictCalls c1 @ ev else evictCalls c1)"
    by blast
  have m: "mset (entries c1) = mset (entries (spec_evict c1)) + mset ev"
    by (subst ev(1)) simp
  have once: "evicted_once (entries c1) (entries (spec_evict c1)) ev"
    by (rule evicted_onceI [OF inv_distinct_keys [OF c1(2)] m])
  have calls: "evictCalls (spec_evict c1) = evictCalls c @ ev"
    using ev(2) assms(2) by (simp add: c1(3,4))
  have tot: "0 \<le>s limit c \<longrightarrow> (\<exists>b c'. Add k v c = Some (Inr (b, c')))"
    using lru_inv_Add [OF assms(1), of k v] by blast
  have par: "\<forall>r. Add k v c = Some r \<longrightarrow>
                  (\<exists>b c' ev. r = Inr (b, c') \<and> evictCalls c' = evictCalls c @ ev
                     \<and> evicted_once (entries c1) (entries c') ev)"
  proof (intro allI impI)
    fix r assume "Add k v c = Some r"
    from Add_returns [OF assms(1) this] c1(1)
    have r: "r = Inr (limit c1 <s size_acc c1, spec_evict c1)" by auto
    show "\<exists>b c' ev. r = Inr (b, c') \<and> evictCalls c' = evictCalls c @ ev
                     \<and> evicted_once (entries c1) (entries c') ev"
      by (rule exI [of _ "limit c1 <s size_acc c1"], rule exI [of _ "spec_evict c1"],
          rule exI [of _ ev]) (intro conjI r calls once)
  qed
  show "\<exists>c1. Add_place k v c = Inr c1 \<and> evictCalls c1 = evictCalls c
            \<and> entries c1 = (k, v) # filter (\<lambda>x. fst x \<noteq> k) (entries c)
            \<and> (0 \<le>s limit c \<longrightarrow> (\<exists>b c'. Add k v c = Some (Inr (b, c'))))
            \<and> (\<forall>r. Add k v c = Some r \<longrightarrow>
                  (\<exists>b c' ev. r = Inr (b, c') \<and> evictCalls c' = evictCalls c @ ev
                     \<and> evicted_once (entries c1) (entries c') ev))"
    by (rule exI [of _ c1]) (intro conjI c1(1) c1(4) en tot par)
next
  assume ks: "distinct ks \<and> set ks = dom (items c)"
  from Purge_result [OF assms(1), of ks] ks obtain c' ev where r:
    "Purge ks c = Inr c'"
    "c' = c\<lparr>items := Map.empty, evictList := [], size_acc := 0,
             evictCalls := (if onEvict c then evictCalls c @ ev else evictCalls c)\<rparr>"
    "mset ev = mset (entries c)"
    by blast
  have e: "entries c' = []" by (simp add: r(2) entries_def)
  have "evicted_once (entries c) (entries c') ev"
    by (rule evicted_onceI [OF inv_distinct_keys [OF assms(1)]]) (simp add: e r(3))
  then show "\<exists>c' ev. Purge ks c = Inr c' \<and> evictCalls c' = evictCalls c @ ev
               \<and> entries c' = [] \<and> evicted_once (entries c) (entries c') ev"
    using r(1) e assms(2) by (auto simp: r(2))
qed

theorem C6_evict_callback_witness:
  "(\<exists>b c' ev. Remove 1 ex_cache = Inr (b, c') \<and> evictCalls c' = ev
       \<and> evicted_once (entries ex_cache) (entries c') ev)
   \<and> (\<exists>r c' ev. RemoveOldest ex_cache = Inr (r, c') \<and> evictCalls c' = ev
       \<and> evicted_once (entries ex_cache) (entries c') ev)
   \<and> (\<exists>c1 b c' ev. Add_place 1 12 ex_cache = Inr c1
       \<and> entries c1 = (1, 12) # filter (\<lambda>x. fst x \<noteq> 1) (entries ex_cache)
       \<and> Add 1 12 ex_cache = Some (Inr (b, c')) \<and> evictCalls c' = ev
       \<and> evicted_once (entries c1) (entries c') ev)
   \<and> (\<exists>n c' ev. Resize 1 ex_cache = Inr (n, c') \<and> evictCalls c' = ev
       \<and> evicted_once (entries ex_cache) (entries c') ev)
   \<and> (\<exists>c' ev. Purge [2, 1] ex_cache = Inr c' \<and> evictCalls c' = ev
       \<and> entries c' = [] \<and> evicted_once (entries ex_cache) (entries c') ev)
   \<and> (\<exists>c1 c' ev. Add_place 1 5 ex_overdrawn = Inr c1
       \<and> Add 1 5 ex_overdrawn = Some (Inr (False, c')) \<and> evictCalls c' = ev
       \<and> evicted_once (entries c1) (entries c') ev)"
proof -
  have oe: "onEvict ex_cache" and ec: "evictCalls ex_cache = []"
    and lim: "0 \<le>s limit ex_cache"
    by (simp_all add: ex_cache_def word_sle_eq)
  have oe': "onEvict ex_overdrawn" and ec': "evictCalls ex_overdrawn = []"
    by (simp_all add: ex_overdrawn_def)
  have ks: "distinct [2, 1 :: nat] \<and> set [2, 1] = dom (items ex_cache)"
    by (auto simp: ex_cache_def)
  note t = C6_evict_callback [OF ex_cache_inv oe, of 1 12 1 "[2, 1]"]
  note t' = C6_evict_callback [OF ex_overdrawn_inv oe', of 1 5]
  have r1: "\<exists>b c' ev. Remove 1 ex_cache = Inr (b, c') \<and> evictCalls c' = ev
       \<and> evicted_once (entries ex_cache) (entries c') ev"
    using t [THEN conjunct1] by (simp add: ec)
  have r2: "\<exists>r c' ev. RemoveOldest ex_cache = Inr (r, c') \<and> evictCalls c' = ev
       \<and> evicted_once (entries ex_cache) (entries c') ev"
    using t [THEN conjunct2, THEN conjunct1] by (simp add: ec)
  have r4: "\<exists>n c' ev. Resize 1 ex_cache = Inr (n, c') \<and> evictCalls c' = ev
       \<and> evicted_once (entries ex_cache) (entries c') ev"
    using t [THEN conjunct2, THEN conjunct2, THEN conjunct2, THEN conjunct1]
    by (simp add: ec)
  have r5: "\<exists>c' ev. Purge [2, 1] ex_cache = Inr c' \<and> evictCalls c' = ev
       \<and> entries c' = [] \<and> evicted_once (entries ex_cache) (entries c') ev"
    using t [THEN conjunct2, THEN conjunct2, THEN conjunct2, THEN conjunct2] ks
    by (simp add: ec)
  from t [THEN conjunct2, THEN conjunct2, THEN conjunct1] obtain c1 where
    c1: "Add_place 1 12 ex_cache = Inr c1"
        "entries c1 = (1, 12) # filter (\<lambda>x. fst x \<noteq> 1) (entries ex_cache)"
        "0 \<le>s limit ex_cache \<longrightarrow> (\<exists>b c'. Add 1 12 ex_cache = Some (Inr (b, c')))"
        "\<forall>r. Add 1 12 ex_cache = Some r \<longrightarrow>
            (\<exists>b c' ev. r = Inr (b, c') \<and> evictCalls c' = evictCalls ex_cache @ ev
                \<and> evicted_once (entries c1) (entries c') ev)"
    by (elim exE conjE)
  from c1(3) lim obtain b c' where a: "Add 1 12 ex_cache = Some (Inr (b, c'))"
    by (elim impE exE)
  from c1(4) [rule_format, OF a] obtain ev where
    e: "evictCalls c' = ev" "evicted_once (entries c1) (entries c') ev"
    by (auto simp: ec)
  have r3: "\<exists>c1 b c' ev. Add_place 1 12 ex_cache = Inr c1
       \<and> entries c1 = (1, 12) # filter (\<lambda>x. fst x \<noteq> 1) (entries ex_cache)
       \<and> Add 1 12 ex_cache = Some (Inr (b, c')) \<and> evictCalls c' = ev
       \<and> evicted_once (entries c1) (entries c') ev"
    by (rule exI [of _ c1], rule exI [of _ b], rule exI [of _ c'], rule exI [of _ ev])
       (intro conjI c1(1) c1(2) a e)
  from t' [THEN conjunct2, THEN conjunct2, THEN conjunct1] obtain c2 where
    c2: "Add_place 1 5 ex_overdrawn = Inr c2"
        "\<forall>r. Add 1 5 ex_overdrawn = Some r \<longrightarrow>
            (\<exists>b c' ev. r = Inr (b, c') \<and> evictCalls c' = evictCalls ex_overdrawn @ ev
                \<and> evicted_once (entries c2) (entries c') ev)"
    by (elim exE conjE)
  from c2(2) [rule_format, OF ex_overdrawn_Add] obtain ev' where
    e': "evictCalls (placed_new 1 5 ex_overdrawn) = ev'"
        "evicted_once (entries c2) (entries (placed_new 1 5 ex_overdrawn)) ev'"
    by (auto simp: ec')
  have r6: "\<exists>c1 c' ev. Add_place 1 5 ex_overdrawn = Inr c1
       \<and> Add 1 5 ex_overdrawn = Some (Inr (False, c')) \<and> evictCalls c' = ev
       \<and> evicted_once (entries c1) (entries c') ev"
    by (rule exI [of _ c2], rule exI [of _ "placed_new 1 5 ex_overdrawn"], rule exI [of _ ev'])
       (intro conjI c2(1) ex_overdrawn_Add e')
  show ?thesis by (intro conjI r1 r2 r3 r4 r5 r6)
qed

text \<open>
  C7: \<^verbatim>\<open>Purge\<close> on a well-formed cache, whatever the order \<open>ks\<close> in which the range
  visits the keys of the index, calls the callback (when set) once for every present entry,
  empties the index and the recency list and sets the size to zero. Afterwards \<^verbatim>\<open>Len\<close> and
  \<^verbatim>\<open>AccountingSize\<close> are 0 and \<^verbatim>\<open>Get\<close>, \<^verbatim>\<open>Peek\<close> and \<^verbatim>\<open>Contains\<close> find no key.
\<close>

theorem C7_purge:
  assumes "lru_inv c" and "distinct ks" and "set ks = dom (items c)"
  shows "\<exists>c' ev. Purge ks c = Inr c'
      \<and> evictCalls c' = (if onEvict c then evictCalls c @ ev else evictCalls c)
      \<and> mset ev = mset (entries c)
      \<and> items c' = Map.empty \<and> evictList c' = [] \<and> size_acc c' = 0
      \<and> Len c' = 0 \<and> AccountingSize c' = 0
      \<and> (\<forall>k. Get k c' = (None, c') \<and> Peek k c' = Inr (None, c')
              \<and> Contains k c' = (False, c'))"
proof -
  from Purge_result [OF assms] obtain c' ev where r:
    "Purge ks c = Inr c'"
    "c' = c\<lparr>items := Map.empty, evictList := [], size_acc := 0,
             evictCalls := (if onEvict c then evictCalls c @ ev else evictCalls c)\<rparr>"
    "mset ev = mset (entries c)"
    by blast
  have i: "items c' = Map.empty" "evictList c' = []" "size_acc c' = 0"
    "evictCalls c' = (if onEvict c then evictCalls c @ ev else evictCalls c)"
    by (simp_all add: r(2))
  show ?thesis
    apply (rule exI [of _ c'], rule exI [of _ ev])
    using r(1,3) i
    apply (simp add: Len_def AccountingSize_def Get_def Peek_def Contains_def)
    done
qed

theorem C7_purge_witness:
  "\<exists>c'. Purge [2, 1] ex_cache = Inr c' \<and> mset (evictCalls c') = {#(1, 4), (2, 5)#}
      \<and> Len c' = 0 \<and> AccountingSize c' = 0
      \<and> Get 1 c' = (None, c') \<and> Peek 2 c' = Inr (None, c') \<and> Contains 1 c' = (False, c')"
proof -
  have d: "distinct [2, 1 :: nat]" by simp
  have s: "set [2, 1] = dom (items ex_cache)" by (auto simp: ex_cache_def)
  have e: "entries ex_cache = [(2, 5), (1, 4)]"
    by (simp add: entries_def entries_of_def entry_at_def ex_cache_def)
  from C7_purge [OF ex_cache_inv d s] show ?thesis
    by (auto simp: e) (auto simp: ex_cache_def)
qed

text \<open>
  C8: \<^verbatim>\<open>Remove\<close> of a present key, on a well-formed cache, unlinks the element from the
  recency list, deletes the key from the index, subtracts the entry's weight from the size,
  calls the callback (when set) with the key and value, and returns true; a second call for the
  same key returns false and changes nothing. For an absent key it returns false and the state
  it leaves is the state it found.
\<close>

theorem C8_remove:
  assumes "lru_inv c"
  shows "(\<forall>e. items c k = Some e \<longrightarrow>
            (\<exists>kv c'. heap c e = Some kv \<and> key kv = k \<and> Remove k c = Inr (True, c')
               \<and> items c' = (items c)(k := None)
               \<and> evictList c' = remove1 e (evictList c) \<and> e \<notin> set (evictList c')
               \<and> length (evictList c') + 1 = length (evictList c)
               \<and> size_acc c' = size_acc c - onAccount c k (val kv)
               \<and> evictCalls c' = (if onEvict c then evictCalls c @ [(k, val kv)]
                                   else evictCalls c)
               \<and> Remove k c' = Inr (False, c')))
       \<and> (items c k = None \<longrightarrow> Remove k c = Inr (False, c))"
proof (intro conjI allI impI)
  fix e assume i: "items c k = Some e"
  from Remove_present [OF assms i] obtain kv where
    kv: "heap c e = Some kv" "key kv = k" "e \<in> set (evictList c)"
        "Remove k c = Inr (True, unlinked e kv c)"
    by blast
  have d: "distinct (evictList c)" using assms by (simp add: lru_inv_def)
  have len: "length (evictList (unlinked e kv c)) + 1 = length (evictList c)"
    using length_remove1_mem [OF kv(3)] by (simp add: unlinked_def)
  have again: "Remove k (unlinked e kv c) = Inr (False, unlinked e kv c)"
    using kv(2) by (simp add: Remove_def unlinked_def)
  show "\<exists>kv c'. heap c e = Some kv \<and> key kv = k \<and> Remove k c = Inr (True, c')
               \<and> items c' = (items c)(k := None)
               \<and> evictList c' = remove1 e (evictList c) \<and> e \<notin> set (evictList c')
               \<and> length (evictList c') + 1 = length (evictList c)
               \<and> size_acc c' = size_acc c - onAccount c k (val kv)
               \<and> evictCalls c' = (if onEvict c then evictCalls c @ [(k, val kv)]
                                   else evictCalls c)
               \<and> Remove k c' = Inr (False, c')"
    apply (rule exI [of _ kv], rule exI [of _ "unlinked e kv c"])
    using kv(1,2,4) len again d
    apply (simp add: unlinked_def)
    done
next
  assume "items c k = None"
  then show "Remove k c = Inr (False, c)" by (simp add: Remove_def)
qed

theorem C8_remove_witness:
  "(\<exists>c'. Remove 1 ex_cache = Inr (True, c') \<and> items c' = [2 \<mapsto> 1] \<and> evictList c' = [1]
        \<and> size_acc c' = 5 \<and> evictCalls c' = [(1, 4)] \<and> Remove 1 c' = Inr (False, c'))
   \<and> Remove 7 ex_cache = Inr (False, ex_cache)"
proof -
  have i: "items ex_cache 1 = Some 0" and n: "items ex_cache 7 = None"
    by (simp_all add: ex_cache_def)
  have m: "(items ex_cache)(1 := None) = [2 \<mapsto> 1]"
    by (auto simp: ex_cache_def)
  from C8_remove [OF ex_cache_inv, of 1] i
  have a: "\<exists>c'. Remove 1 ex_cache = Inr (True, c') \<and> items c' = [2 \<mapsto> 1] \<and> evictList c' = [1]
        \<and> size_acc c' = 5 \<and> evictCalls c' = [(1, 4)] \<and> Remove 1 c' = Inr (False, c')"
    unfolding m [symmetric] by (auto simp: ex_cache_def ex_account_def)
  from C8_remove [OF ex_cache_inv, of 7] n
  have b: "Remove 7 ex_cache = Inr (False, ex_cache)" by simp
  from a b show ?thesis by blast
qed

text \<open>
  C9: \<^verbatim>\<open>Get\<close> of a present key, on a well-formed cache, moves the element to the front of
  the recency list and changes nothing else; \<^verbatim>\<open>Keys\<close> (oldest first) afterwards lists the
  key last and the other keys in their old order. \<^verbatim>\<open>Get\<close> of an absent key, and
  \<^verbatim>\<open>Peek\<close> and \<^verbatim>\<open>Contains\<close> of any key, leave the whole state as it was.
\<close>

theorem C9_get_promotes:
  assumes "lru_inv c"
  shows "(\<forall>e. items c k = Some e \<longrightarrow>
            (\<exists>kv c' ks. heap c e = Some kv \<and> key kv = k \<and> Get k c = (Some (val kv), c')
               \<and> c' = c\<lparr>evictList := e # remove1 e (evictList c)\<rparr>
               \<and> hd (entries c') = (k, val kv)
               \<and> Keys c = Inr (map Some ks)
               \<and> Keys c' = Inr (map Some (filter (\<lambda>x. x \<noteq> k) ks @ [k]))))
       \<and> (items c k = None \<longrightarrow> Get k c = (None, c))
       \<and> (\<exists>r. Peek k c = Inr (r, c))
       \<and> (\<exists>b. Contains k c = (b, c))"
proof (intro conjI allI impI)
  fix e assume i: "items c k = Some e"
  from inv_items [OF assms i] obtain kv where
    kv: "e \<in> set (evictList c)" "heap c e = Some kv" "key kv = k"
    by auto
  have d: "distinct (evictList c)" using assms by (simp add: lru_inv_def)
  from kv(1) obtain xs ys where l: "evictList c = xs @ e # ys" by (meson split_list)
  have g: "Get k c = (Some (val kv), promoted e c)" by (rule Get_present [OF i kv(1,2)])
  have inv': "lru_inv (promoted e c)" by (rule lru_inv_promoted [OF assms kv(1)])
  have en: "entries c = entries_of (heap c) xs @ (k, val kv) # entries_of (heap c) ys"
    using l kv(2,3) by (simp add: entries_def entries_of_append entries_of_Cons entry_at_def)
  have ep: "entries (promoted e c) = (k, val kv) # entries_of (heap c) xs @ entries_of (heap c) ys"
    using entries_promoted [OF d l kv(2)] kv(3) by simp
  have dk: "distinct (map fst (entries c))" by (rule inv_distinct_keys [OF assms])
  have nk: "k \<notin> fst ` set (entries_of (heap c) xs)" "k \<notin> fst ` set (entries_of (heap c) ys)"
    using dk unfolding en by auto
  have f: "filter (\<lambda>x. x \<noteq> k) (rev (map fst (entries c))) @ [k]
         = rev (map fst (entries (promoted e c)))"
  proof -
    have a: "filter (\<lambda>x. x \<noteq> k) (map fst (entries_of (heap c) xs)) = map fst (entries_of (heap c) xs)"
      and b: "filter (\<lambda>x. x \<noteq> k) (map fst (entries_of (heap c) ys)) = map fst (entries_of (heap c) ys)"
      using nk by (auto simp: filter_id_conv)
    show ?thesis unfolding en ep by (simp add: rev_filter [symmetric] a b)
  qed
  show "\<exists>kv c' ks. heap c e = Some kv \<and> key kv = k \<and> Get k c = (Some (val kv), c')
               \<and> c' = c\<lparr>evictList := e # remove1 e (evictList c)\<rparr>
               \<and> hd (entries c') = (k, val kv)
               \<and> Keys c = Inr (map Some ks)
               \<and> Keys c' = Inr (map Some (filter (\<lambda>x. x \<noteq> k) ks @ [k]))"
    apply (rule exI [of _ kv], rule exI [of _ "promoted e c"],
        rule exI [of _ "rev (map fst (entries c))"])
    using kv(2,3) g Keys_inv [OF assms] Keys_inv [OF inv'] f ep
    apply (simp add: promoted_def)
    done
next
  assume "items c k = None"
  then show "Get k c = (None, c)" by (simp add: Get_def)
next
  show "\<exists>r. Peek k c = Inr (r, c)"
  proof (cases "items c k")
    case None
    then show ?thesis by (simp add: Peek_def)
  next
    case (Some e)
    from inv_items [OF assms Some] show ?thesis using Some by (auto simp: Peek_def)
  qed
next
  show "\<exists>b. Contains k c = (b, c)" by (simp add: Contains_def)
qed


theorem C9_get_promotes_witness:
  "(\<exists>c'. Get 1 ex_cache = (Some 4, c') \<and> evictList c' = [0, 1]
        \<and> Keys ex_cache = Inr [Some 1, Some 2] \<and> Keys c' = Inr [Some 2, Some 1])
   \<and> Get 7 ex_cache = (None, ex_cache)
   \<and> (\<exists>r. Peek 1 ex_cache = Inr (r, ex_cache))
   \<and> (\<exists>b. Contains 1 ex_cache = (b, ex_cache))"
proof -
  have i: "items ex_cache 1 = Some 0" and n: "items ex_cache 7 = None"
    by (simp_all add: ex_cache_def)
  from C9_get_promotes [OF ex_cache_inv, of 1] i obtain kv c' ks where
    a: "heap ex_cache 0 = Some kv" "Get 1 ex_cache = (Some (val kv), c')"
       "c' = ex_cache\<lparr>evictList := 0 # remove1 0 (evictList ex_cache)\<rparr>"
       "Keys ex_cache = Inr (map Some ks)"
       "Keys c' = Inr (map Some (filter (\<lambda>x. x \<noteq> 1) ks @ [1]))"
    by auto
  from a(4) have ks: "ks = [1, 2]" by (auto simp: ex_cache_Keys)
  have v: "val kv = 4" using a(1) by (auto simp: ex_cache_def)
  have l: "evictList c' = [0, 1]" by (simp add: a(3) ex_cache_def)
  have first: "\<exists>c'. Get 1 ex_cache = (Some 4, c') \<and> evictList c' = [0, 1]
        \<and> Keys ex_cache = Inr [Some 1, Some 2] \<and> Keys c' = Inr [Some 2, Some 1]"
    using a(2,5) l ks v by (simp add: ex_cache_Keys)
  from C9_get_promotes [OF ex_cache_inv, of 7] n
  have second: "Get 7 ex_cache = (None, ex_cache)" by simp
  from C9_get_promotes [OF ex_cache_inv, of 1]
  have third: "(\<exists>r. Peek 1 ex_cache = Inr (r, ex_cache)) \<and> (\<exists>b. Contains 1 ex_cache = (b, ex_cache))"
    by blast
  from first second third show ?thesis by blast
qed

text \<open>
  C10: in every cache state that satisfies the invariant of the data model (in particular the
  size field is the sum of the accounting function over the present entries) and whose limit is
  not negative, the eviction loop of \<^verbatim>\<open>evictIfNeeded\<close> returns, and so does every call of
  \<^verbatim>\<open>Add\<close>. With a negative limit, which \<^verbatim>\<open>Resize\<close> can store, the loop never returns
  once the list is empty.
\<close>

theorem C10_eviction_loop_terminates:
  "(lru_inv c \<and> 0 \<le>s limit c \<longrightarrow>
      (\<exists>b c'. evictIfNeeded c = Some (Inr (b, c')))
      \<and> (\<forall>k v. \<exists>b c'. Add k v c = Some (Inr (b, c'))))
   \<and> (lru_inv c \<and> evictList c = [] \<and> limit c <s 0 \<longrightarrow> evictIfNeeded c = None)"
proof (intro conjI impI)
  assume a: "lru_inv c \<and> 0 \<le>s limit c"
  then show "\<exists>b c'. evictIfNeeded c = Some (Inr (b, c'))"
    by (simp add: evictIfNeeded_def evictLoop_spec)
  show "\<forall>k v. \<exists>b c'. Add k v c = Some (Inr (b, c'))"
  proof (intro allI)
    fix k v
    from a Add_place_inv [of c k v] obtain c1 where
      c1: "Add_place k v c = Inr c1" "lru_inv c1" "limit c1 = limit c"
      by blast
    then have "evictLoop c1 = Some (Inr (spec_evict c1))"
      using a by (simp add: evictLoop_spec)
    then show "\<exists>b c'. Add k v c = Some (Inr (b, c'))"
      using c1 by (simp add: Add_def evictIfNeeded_def)
  qed
next
  assume a: "lru_inv c \<and> evictList c = [] \<and> limit c <s 0"
  then have "size_acc c = 0" by (simp add: inv_empty_size)
  with a have "evictLoop c = None" by (simp add: evictLoop_diverges)
  then show "evictIfNeeded c = None" by (simp add: evictIfNeeded_def)
qed

theorem C10_eviction_loop_terminates_witness:
  "(\<exists>b c'. evictIfNeeded ex_cache = Some (Inr (b, c')))
   \<and> (\<exists>b c'. Add 3 7 ex_cache = Some (Inr (b, c')))
   \<and> evictIfNeeded ex_negative = None"
  using C10_eviction_loop_terminates [of ex_cache]
    C10_eviction_loop_terminates [of ex_negative]
    ex_cache_inv ex_negative_inv
  by (simp add: ex_cache_def ex_negative_def word_sle_eq word_sless_alt)

end
